theory Spec2Isabelle
  imports Main "HOL-Library.AList" "HOL-Library.Multiset"
begin

section \<open>Values of the host language\<close>

text \<open>
  The condition objects handled by \<^verbatim>\<open>SiftEntityMatcherSerializer\<close> are plain
  JavaScript values. They are modelled as finite trees. An object is the list of its
  own enumerable properties in the order in which \<^verbatim>\<open>for (const key in obj)\<close> visits
  them; for keys that are not array indices this is the insertion order. Numbers are
  never inspected by the class (they only occur as opaque condition values), so they
  are represented by integers.

  Scope of the value model: property keys of objects are not canonical array indices
  (\<^verbatim>\<open>"0"\<close>, \<^verbatim>\<open>"1"\<close>, ...), arrays are dense and carry no named properties,
  and values are trees (no object is referenced twice). An object is its own
  properties only: reading a key that the object does not have gives \<^verbatim>\<open>undefined\<close>.
  In JavaScript this is so for every key except the names that each object inherits
  from \<^verbatim>\<open>Object.prototype\<close>, listed below; object keys and field path segments with
  one of these names are outside the scope of the model.
\<close>

definition objectPrototypeNames :: "string list" where
  "objectPrototypeNames =
     [''constructor'', ''__proto__'', ''hasOwnProperty'', ''isPrototypeOf'',
      ''propertyIsEnumerable'', ''toLocaleString'', ''toString'', ''valueOf'',
      ''__defineGetter__'', ''__defineSetter__'', ''__lookupGetter__'', ''__lookupSetter__'']"

datatype jsval =
    JUndefined
  | JNull
  | JBool bool
  | JNum int
  | JStr string
  | JArr "jsval list"
  | JObj "(string \<times> jsval) list"

text \<open>JavaScript truthiness (\<^verbatim>\<open>if (v)\<close>, \<^verbatim>\<open>v && ...\<close>).\<close>

fun truthy :: "jsval \<Rightarrow> bool" where
  "truthy JUndefined = False"
| "truthy JNull = False"
| "truthy (JBool b) = b"
| "truthy (JNum n) = (n \<noteq> 0)"
| "truthy (JStr s) = (s \<noteq> [])"
| "truthy (JArr xs) = True"
| "truthy (JObj kvs) = True"

text \<open>\<^verbatim>\<open>typeof v === 'object'\<close>: objects, arrays and also \<^verbatim>\<open>null\<close>.\<close>

fun typeof_object :: "jsval \<Rightarrow> bool" where
  "typeof_object JNull = True"
| "typeof_object (JArr xs) = True"
| "typeof_object (JObj kvs) = True"
| "typeof_object v = False"

section \<open>Operators and AST nodes (sift.types.ts)\<close>

datatype logical_op = LAnd | LOr | LNot

datatype comparison_op =
    OpEq | OpNe | OpLt | OpGt | OpLte | OpGte | OpIn | OpNin
  | OpIlike | OpAll | OpExists | OpElemMatch

datatype embedded_op = OpSome | OpEvery | OpNone

fun logical_key :: "logical_op \<Rightarrow> string" where
  "logical_key LAnd = ''$and''"
| "logical_key LOr = ''$or''"
| "logical_key LNot = ''$not''"

fun comparison_key :: "comparison_op \<Rightarrow> string" where
  "comparison_key OpEq = ''$eq''"
| "comparison_key OpNe = ''$ne''"
| "comparison_key OpLt = ''$lt''"
| "comparison_key OpGt = ''$gt''"
| "comparison_key OpLte = ''$lte''"
| "comparison_key OpGte = ''$gte''"
| "comparison_key OpIn = ''$in''"
| "comparison_key OpNin = ''$nin''"
| "comparison_key OpIlike = ''$ilike''"
| "comparison_key OpAll = ''$all''"
| "comparison_key OpExists = ''$exists''"
| "comparison_key OpElemMatch = ''$elemMatch''"

fun embedded_key :: "embedded_op \<Rightarrow> string" where
  "embedded_key OpSome = ''$some''"
| "embedded_key OpEvery = ''$every''"
| "embedded_key OpNone = ''$none''"

text \<open>
  The three node variants of \<^verbatim>\<open>SiftSerializerASTNode\<close>; the \<^verbatim>\<open>type\<close> tag is the
  constructor.
\<close>

datatype node =
    Condition (node_id: nat) (fieldPath: "string list") (cmp_operator: comparison_op)
      (node_value: jsval)
  | Logical (node_id: nat) (log_operator: logical_op) (children: "node list")
  | Embedded (node_id: nat) (fieldPath: "string list") (emb_operator: embedded_op)
      (subtree: "node list")

section \<open>Key classification\<close>

definition isLogicalOperator :: "string \<Rightarrow> bool" where
  "isLogicalOperator key = (key \<in> set [''$and'', ''$or'', ''$not''])"

definition isEmbeddedOperator :: "string \<Rightarrow> bool" where
  "isEmbeddedOperator key = (key \<in> set [''$some'', ''$every'', ''$none''])"

definition isComparisonOperator :: "string \<Rightarrow> bool" where
  "isComparisonOperator key =
     (key \<in> set [''$eq'', ''$in'', ''$nin'', ''$lt'', ''$gt'', ''$lte'', ''$gte'', ''$ne'',
                 ''$ilike'', ''$all'', ''$exists'', ''$elemMatch''])"

text \<open>
  The casts \<^verbatim>\<open>op as SiftSerializerLogicalOperator\<close> etc. of a key that passed the
  corresponding test: the key read as a value of the operator type, and \<open>None\<close> for
  a key that fails the test. The serializer below branches on these.
\<close>

definition logical_of_key :: "string \<Rightarrow> logical_op option" where
  "logical_of_key key =
     (if key = ''$and'' then Some LAnd
      else if key = ''$or'' then Some LOr
      else if key = ''$not'' then Some LNot
      else None)"

definition embedded_of_key :: "string \<Rightarrow> embedded_op option" where
  "embedded_of_key key =
     (if key = ''$some'' then Some OpSome
      else if key = ''$every'' then Some OpEvery
      else if key = ''$none'' then Some OpNone
      else None)"

definition comparison_of_key :: "string \<Rightarrow> comparison_op option" where
  "comparison_of_key key =
     (if key = ''$eq'' then Some OpEq
      else if key = ''$in'' then Some OpIn
      else if key = ''$nin'' then Some OpNin
      else if key = ''$lt'' then Some OpLt
      else if key = ''$gt'' then Some OpGt
      else if key = ''$lte'' then Some OpLte
      else if key = ''$gte'' then Some OpGte
      else if key = ''$ne'' then Some OpNe
      else if key = ''$ilike'' then Some OpIlike
      else if key = ''$all'' then Some OpAll
      else if key = ''$exists'' then Some OpExists
      else if key = ''$elemMatch'' then Some OpElemMatch
      else None)"

section \<open>Serialization: condition object to AST\<close>

text \<open>
  \<^verbatim>\<open>_serializeObject\<close> reads and increments \<^verbatim>\<open>this._idCounter\<close>; the counter is
  threaded through explicitly. The only statement that can throw is
  \<^verbatim>\<open>for (const item of value)\<close> under a key \<^verbatim>\<open>$and\<close> or \<^verbatim>\<open>$or\<close> whose value is
  not iterable; the counter reached at that point is returned with the error.
\<close>

datatype error =
    NotIterable
  | ParentNotFound
  | InvalidParentType
  | NodeNotFound
  | InvalidNodeType

text \<open>
  The four loops of \<^verbatim>\<open>_serializeObject\<close>:
  \<^item> \<open>serializeObject\<close>: the function body (array test, then the key loop);
  \<^item> \<open>serializeItems\<close>: \<^verbatim>\<open>for (const item of obj) nodesArr.push(...childNodes)\<close>,
    also used for the array under \<^verbatim>\<open>$and\<close>/\<^verbatim>\<open>$or\<close>;
  \<^item> \<open>serializeKeys\<close>: \<^verbatim>\<open>for (const key in obj)\<close>;
  \<^item> \<open>serializeOps\<close>: \<^verbatim>\<open>for (const op in fieldValue)\<close>, returning \<^verbatim>\<open>fieldNodes\<close> and
    \<^verbatim>\<open>operatorFound\<close>.
  A node's id is generated after its children have been serialized, as the object
  literal is evaluated after the recursive call.

  A primitive \<^verbatim>\<open>obj\<close> has no keys to enumerate, except a string, whose keys are its
  indices and whose property values are one-character strings, which produce nothing.
  A string under \<^verbatim>\<open>$and\<close>/\<^verbatim>\<open>$or\<close> is iterable and each of its characters serializes
  to nothing.
\<close>

fun serializeObject :: "jsval \<Rightarrow> string list \<Rightarrow> nat \<Rightarrow> (error + node list) \<times> nat"
and serializeItems :: "jsval list \<Rightarrow> string list \<Rightarrow> nat \<Rightarrow> (error + node list) \<times> nat"
and serializeKeys :: "(string \<times> jsval) list \<Rightarrow> string list \<Rightarrow> nat \<Rightarrow> (error + node list) \<times> nat"
and serializeOps ::
  "(string \<times> jsval) list \<Rightarrow> string \<Rightarrow> string list \<Rightarrow> nat
     \<Rightarrow> (error + node list \<times> bool) \<times> nat"
where
  "serializeObject (JArr items) currentPath c = serializeItems items currentPath c"
| "serializeObject (JObj kvs) currentPath c = serializeKeys kvs currentPath c"
| "serializeObject JUndefined currentPath c = (Inr [], c)"
| "serializeObject JNull currentPath c = (Inr [], c)"
| "serializeObject (JBool b) currentPath c = (Inr [], c)"
| "serializeObject (JNum n) currentPath c = (Inr [], c)"
| "serializeObject (JStr s) currentPath c = (Inr [], c)"
| "serializeItems [] currentPath c = (Inr [], c)"
| "serializeItems (item # rest) currentPath c =
     (case serializeObject item currentPath c of
        (Inl e, c1) \<Rightarrow> (Inl e, c1)
      | (Inr childNodes, c1) \<Rightarrow>
          (case serializeItems rest currentPath c1 of
             (Inl e, c2) \<Rightarrow> (Inl e, c2)
           | (Inr more, c2) \<Rightarrow> (Inr (childNodes @ more), c2)))"
| "serializeKeys [] currentPath c = (Inr [], c)"
| "serializeKeys ((key, val) # rest) currentPath c =
     (case
        (case logical_of_key key of
           Some lop \<Rightarrow>
             if lop = LNot then
               (case serializeObject val currentPath c of
                  (Inl e, c1) \<Rightarrow> (Inl e, c1)
                | (Inr childNodes, c1) \<Rightarrow> (Inr [Logical c1 LNot childNodes], Suc c1))
             else
               (case val of
                  JArr items \<Rightarrow>
                    (case serializeItems items currentPath c of
                       (Inl e, c1) \<Rightarrow> (Inl e, c1)
                     | (Inr childNodes, c1) \<Rightarrow> (Inr [Logical c1 lop childNodes], Suc c1))
                | JStr s \<Rightarrow> (Inr [Logical c lop []], Suc c)
                | _ \<Rightarrow> (Inl NotIterable, c))
         | None \<Rightarrow>
             (case (case val of
                      JObj ops \<Rightarrow> serializeOps ops key currentPath c
                    | _ \<Rightarrow> (Inr ([], False), c)) of
                (Inl e, c1) \<Rightarrow> (Inl e, c1)
              | (Inr (fieldNodes, operatorFound), c1) \<Rightarrow>
                  if \<not> operatorFound \<and> truthy val \<and> typeof_object val
                  then serializeObject val (currentPath @ [key]) c1
                  else (Inr fieldNodes, c1)))
      of
        (Inl e, c2) \<Rightarrow> (Inl e, c2)
      | (Inr nodes, c2) \<Rightarrow>
          (case serializeKeys rest currentPath c2 of
             (Inl e, c3) \<Rightarrow> (Inl e, c3)
           | (Inr more, c3) \<Rightarrow> (Inr (nodes @ more), c3)))"
| "serializeOps [] key currentPath c = (Inr ([], False), c)"
| "serializeOps ((op, v) # rest) key currentPath c =
     (case
        (case embedded_of_key op of
           Some eop \<Rightarrow>
             (case serializeObject v [] c of
                (Inl e, c1) \<Rightarrow> (Inl e, c1)
              | (Inr subtreeNodes, c1) \<Rightarrow>
                  (Inr ([Embedded c1 (currentPath @ [key]) eop subtreeNodes], True), Suc c1))
         | None \<Rightarrow>
             (case comparison_of_key op of
                Some cop \<Rightarrow> (Inr ([Condition c (currentPath @ [key]) cop v], True), Suc c)
              | None \<Rightarrow>
                  (case logical_of_key op of
                     Some lop \<Rightarrow>
                       (case serializeObject v (currentPath @ [key]) c of
                          (Inl e, c1) \<Rightarrow> (Inl e, c1)
                        | (Inr childNodes, c1) \<Rightarrow>
                            (Inr ([Logical c1 lop childNodes], True), Suc c1))
                   | None \<Rightarrow> (Inr ([], False), c))))
      of
        (Inl e, c2) \<Rightarrow> (Inl e, c2)
      | (Inr (nodes, found), c2) \<Rightarrow>
          (case serializeOps rest key currentPath c2 of
             (Inl e, c3) \<Rightarrow> (Inl e, c3)
           | (Inr (more, found'), c3) \<Rightarrow> (Inr (nodes @ more, found \<or> found'), c3)))"

section \<open>Deserialization: AST to condition object\<close>

fun isNotEmpty :: "jsval \<Rightarrow> bool" where
  "isNotEmpty JNull = False"
| "isNotEmpty JUndefined = False"
| "isNotEmpty (JArr xs) = (length xs > 0)"
| "isNotEmpty (JObj kvs) = (length kvs > 0)"
| "isNotEmpty v = True"

text \<open>
  \<^verbatim>\<open>_buildNestedObject\<close>: the condition itself for the empty path, otherwise one
  fresh single-key object per path segment. The test \<^verbatim>\<open>!current[path[i]]\<close> reads a
  key of an object that was created empty just before, so it always succeeds (for a
  segment in the scope of the model) and the inner object is always created.
\<close>

fun buildNestedObject :: "string list \<Rightarrow> jsval \<Rightarrow> jsval" where
  "buildNestedObject [] condition = condition"
| "buildNestedObject (k # path) condition = JObj [(k, buildNestedObject path condition)]"

text \<open>
  \<^verbatim>\<open>_deepMerge(target, source)\<close> writes into \<^verbatim>\<open>target\<close> and returns it; the model
  returns the new value of \<^verbatim>\<open>target\<close>. \<open>mergeProps\<close> is the loop
  \<^verbatim>\<open>for (const key in source)\<close> over an object source: \<^verbatim>\<open>target[key]\<close> is
  \<open>map_of tgt key\<close> (a missing key reads as \<^verbatim>\<open>undefined\<close>, which is falsy), and the
  assignment \<^verbatim>\<open>target[key] = ...\<close> is \<open>AList.update\<close>, which keeps the position of
  an existing key and appends a new one. \<open>mergeItems\<close> is the same loop over an
  array source and an array target, where the keys are the indices in ascending order
  and index \<open>i\<close> only reads and writes element \<open>i\<close>.

  The result is \<open>None\<close> where it is not a value of the model: index properties
  written onto a plain object, or named properties written onto an array. The target
  is always an object or an array (the accumulator of \<^verbatim>\<open>_mergeObjects\<close>, or a property
  that passed the test \<^verbatim>\<open>target[key] && typeof target[key] === 'object'\<close>); for any
  other target and a source with keys the result is \<open>None\<close> as well.
  A source without enumerable keys leaves the target as it is; \<^verbatim>\<open>null\<close> is such
  a source, and it passes \<^verbatim>\<open>typeof source[key] === 'object'\<close>.

  The objects that the class merges into are built by the deserialization itself,
  with one exception: \<^verbatim>\<open>{ [node.operator]: node.value }\<close> shares the value with the
  node, so when two condition nodes with the same field path and operator both carry
  an array or object, the merge also writes into the value of the first node. The
  model gives the object that \<^verbatim>\<open>deserialize()\<close> returns and leaves this effect on
  the tree out.
\<close>

fun deepMerge :: "jsval \<Rightarrow> jsval \<Rightarrow> jsval option"
and mergeProps :: "(string \<times> jsval) list \<Rightarrow> (string \<times> jsval) list \<Rightarrow> (string \<times> jsval) list option"
and mergeItems :: "jsval list \<Rightarrow> jsval list \<Rightarrow> jsval list option"
where
  "deepMerge target (JObj src) =
     (case target of
        JObj tgt \<Rightarrow> map_option JObj (mergeProps tgt src)
      | _ \<Rightarrow> if src = [] then Some target else None)"
| "deepMerge target (JArr src) =
     (case target of
        JArr tgt \<Rightarrow> map_option JArr (mergeItems tgt src)
      | _ \<Rightarrow> if src = [] then Some target else None)"
| "deepMerge target (JStr s) = (if s = [] then Some target else None)"
| "deepMerge target JNull = Some target"
| "deepMerge target JUndefined = Some target"
| "deepMerge target (JBool b) = Some target"
| "deepMerge target (JNum n) = Some target"
| "mergeProps tgt [] = Some tgt"
| "mergeProps tgt ((key, sv) # rest) =
     (case
        (case map_of tgt key of
           Some tv \<Rightarrow>
             if truthy tv \<and> typeof_object tv \<and> typeof_object sv
             then deepMerge tv sv
             else Some sv
         | None \<Rightarrow> Some sv)
      of
        None \<Rightarrow> None
      | Some nv \<Rightarrow> mergeProps (AList.update key nv tgt) rest)"
| "mergeItems tgt [] = Some tgt"
| "mergeItems [] (sv # rest) = Some (sv # rest)"
| "mergeItems (tv # tgt) (sv # rest) =
     (case
        (if truthy tv \<and> typeof_object tv \<and> typeof_object sv
         then deepMerge tv sv
         else Some sv)
      of
        None \<Rightarrow> None
      | Some nv \<Rightarrow> map_option ((#) nv) (mergeItems tgt rest))"

text \<open>\<^verbatim>\<open>_mergeObjects\<close>: \<^verbatim>\<open>result = {}\<close>, then one \<^verbatim>\<open>_deepMerge\<close> per object.\<close>

fun mergeInto :: "jsval \<Rightarrow> jsval list \<Rightarrow> jsval option" where
  "mergeInto result [] = Some result"
| "mergeInto result (obj # objects) =
     (case deepMerge result obj of
        None \<Rightarrow> None
      | Some result' \<Rightarrow> mergeInto result' objects)"

definition mergeObjects :: "jsval list \<Rightarrow> jsval option" where
  "mergeObjects objects = mergeInto (JObj []) objects"

text \<open>
  \<open>deserializeEach\<close> is the list of the non-empty deserialized nodes, which both the
  loop of \<^verbatim>\<open>_deserializeNodes\<close> and the \<^verbatim>\<open>map\<close>/\<^verbatim>\<open>filter\<close> chain of the
  \<^verbatim>\<open>$and\<close>/\<^verbatim>\<open>$or\<close> case compute. \<^verbatim>\<open>_deserializeNodes\<close> is only ever called with
  an array of nodes.
\<close>

fun deserializeNode :: "node \<Rightarrow> jsval option"
and deserializeEach :: "node list \<Rightarrow> jsval list option"
and deserializeNodes :: "node list \<Rightarrow> jsval option"
where
  "deserializeNode (Condition i path cop v) =
     Some (buildNestedObject path (JObj [(comparison_key cop, v)]))"
| "deserializeNode (Logical i lop childNodes) =
     (if lop = LNot then
        (case deserializeNodes childNodes of
           None \<Rightarrow> None
         | Some childObj \<Rightarrow>
             if \<not> isNotEmpty childObj then Some (JObj [])
             else Some (JObj [(''$not'', childObj)]))
      else
        (case deserializeEach childNodes of
           None \<Rightarrow> None
         | Some childrenArr \<Rightarrow>
             if \<not> isNotEmpty (JArr childrenArr) then Some (JObj [])
             else Some (JObj [(logical_key lop, JArr childrenArr)])))"
| "deserializeNode (Embedded i path eop subtreeNodes) =
     (case deserializeNodes subtreeNodes of
        None \<Rightarrow> None
      | Some inner \<Rightarrow>
          if \<not> isNotEmpty inner then Some (JObj [])
          else Some (buildNestedObject path (JObj [(embedded_key eop, inner)])))"
| "deserializeEach [] = Some []"
| "deserializeEach (n # ns) =
     (case deserializeNode n of
        None \<Rightarrow> None
      | Some d \<Rightarrow>
          (case deserializeEach ns of
             None \<Rightarrow> None
           | Some ds \<Rightarrow> Some (if isNotEmpty d then d # ds else ds)))"
| "deserializeNodes nodes =
     (case deserializeEach nodes of
        None \<Rightarrow> None
      | Some deserializedObjects \<Rightarrow> mergeObjects deserializedObjects)"

section \<open>Tree search, in-place update and removal\<close>

fun findNodeByIdIn :: "node list \<Rightarrow> nat \<Rightarrow> node option" where
  "findNodeByIdIn [] i = None"
| "findNodeByIdIn (n # rest) i =
     (if node_id n = i then Some n
      else
        (case (case n of
                 Logical j lop childNodes \<Rightarrow> findNodeByIdIn childNodes i
               | Embedded j path eop subtreeNodes \<Rightarrow> findNodeByIdIn subtreeNodes i
               | Condition j path cop v \<Rightarrow> None) of
           Some found \<Rightarrow> Some found
         | None \<Rightarrow> findNodeByIdIn rest i))"

text \<open>
  The class mutates the node object that \<^verbatim>\<open>_findNodeById\<close> returned. Every node
  object occurs once in the tree, so this is the tree in which the first node with
  that id, in the order of the search, is replaced by its mutated version. The flag
  tells whether such a node was met.
\<close>

fun modifyNodeById :: "(node \<Rightarrow> node) \<Rightarrow> node list \<Rightarrow> nat \<Rightarrow> node list \<times> bool" where
  "modifyNodeById f [] i = ([], False)"
| "modifyNodeById f (n # rest) i =
     (if node_id n = i then (f n # rest, True)
      else
        (case n of
           Logical j lop childNodes \<Rightarrow>
             (case modifyNodeById f childNodes i of
                (childNodes', True) \<Rightarrow> (Logical j lop childNodes' # rest, True)
              | (childNodes', False) \<Rightarrow>
                  (case modifyNodeById f rest i of (rest', b) \<Rightarrow> (n # rest', b)))
         | Embedded j path eop subtreeNodes \<Rightarrow>
             (case modifyNodeById f subtreeNodes i of
                (subtreeNodes', True) \<Rightarrow> (Embedded j path eop subtreeNodes' # rest, True)
              | (subtreeNodes', False) \<Rightarrow>
                  (case modifyNodeById f rest i of (rest', b) \<Rightarrow> (n # rest', b)))
         | Condition j path cop v \<Rightarrow>
             (case modifyNodeById f rest i of (rest', b) \<Rightarrow> (n # rest', b))))"

text \<open>\<^verbatim>\<open>_removeNodeFromList\<close>: the list after the removal and the returned flag.\<close>

fun removeNodeFromList :: "node list \<Rightarrow> nat \<Rightarrow> node list \<times> bool" where
  "removeNodeFromList [] i = ([], False)"
| "removeNodeFromList (n # rest) i =
     (if node_id n = i then (rest, True)
      else
        (case n of
           Logical j lop childNodes \<Rightarrow>
             (case removeNodeFromList childNodes i of
                (childNodes', True) \<Rightarrow> (Logical j lop childNodes' # rest, True)
              | (childNodes', False) \<Rightarrow>
                  (case removeNodeFromList rest i of (rest', b) \<Rightarrow> (n # rest', b)))
         | Embedded j path eop subtreeNodes \<Rightarrow>
             (case removeNodeFromList subtreeNodes i of
                (subtreeNodes', True) \<Rightarrow> (Embedded j path eop subtreeNodes' # rest, True)
              | (subtreeNodes', False) \<Rightarrow>
                  (case removeNodeFromList rest i of (rest', b) \<Rightarrow> (n # rest', b)))
         | Condition j path cop v \<Rightarrow>
             (case removeNodeFromList rest i of (rest', b) \<Rightarrow> (n # rest', b))))"

section \<open>The class SiftEntityMatcherSerializer\<close>

text \<open>
  The two private fields. Ids are the values of \<^verbatim>\<open>_idCounter\<close>, which starts at 0
  and is only ever incremented, so ids and the counter are natural numbers; an id
  argument that is not a natural number equals no node id and behaves as an absent one.
  The counter is taken as unbounded: a JavaScript number counts exactly up to
  \<open>2\<^sup>5\<^sup>3\<close>, which no instance reaches.
\<close>

record serializer =
  tree :: "node list"
  idCounter :: nat

definition generateId :: "serializer \<Rightarrow> nat \<times> serializer" where
  "generateId st = (idCounter st, st\<lparr>idCounter := Suc (idCounter st)\<rparr>)"

definition serialize :: "jsval \<Rightarrow> serializer \<Rightarrow> (error + node list) \<times> serializer" where
  "serialize query st =
     (case serializeObject query [] (idCounter st) of
        (Inl e, c) \<Rightarrow> (Inl e, st\<lparr>idCounter := c\<rparr>)
      | (Inr nodes, c) \<Rightarrow> (Inr nodes, \<lparr>tree = nodes, idCounter = c\<rparr>))"

text \<open>The constructor; a throwing constructor yields no instance.\<close>

definition construct :: "jsval option \<Rightarrow> error + serializer" where
  "construct query =
     (case query of
        None \<Rightarrow> Inr \<lparr>tree = [], idCounter = 0\<rparr>
      | Some q \<Rightarrow>
          if truthy q then
            (case serialize q \<lparr>tree = [], idCounter = 0\<rparr> of
               (Inl e, st) \<Rightarrow> Inl e
             | (Inr nodes, st) \<Rightarrow> Inr st)
          else Inr \<lparr>tree = [], idCounter = 0\<rparr>)"

definition deserialize :: "serializer \<Rightarrow> jsval option" where
  "deserialize st =
     (case deserializeNodes (tree st) of
        None \<Rightarrow> None
      | Some deserialized \<Rightarrow>
          if \<not> isNotEmpty deserialized then Some JNull else Some deserialized)"

definition findNodeById :: "nat \<Rightarrow> serializer \<Rightarrow> node option" where
  "findNodeById i st = findNodeByIdIn (tree st) i"

text \<open>\<^verbatim>\<open>parent.children.push(node)\<close> or \<^verbatim>\<open>parent.subtree.push(node)\<close>.\<close>

fun pushChild :: "node \<Rightarrow> node \<Rightarrow> node" where
  "pushChild n (Logical j lop childNodes) = Logical j lop (childNodes @ [n])"
| "pushChild n (Embedded j path eop subtreeNodes) = Embedded j path eop (subtreeNodes @ [n])"
| "pushChild n (Condition j path cop v) = Condition j path cop v"

definition addNode :: "node \<Rightarrow> nat option \<Rightarrow> serializer \<Rightarrow> (error + node) \<times> serializer" where
  "addNode n parentId st =
     (case parentId of
        Some pid \<Rightarrow>
          (case findNodeByIdIn (tree st) pid of
             None \<Rightarrow> (Inl ParentNotFound, st)
           | Some parent \<Rightarrow>
               (case parent of
                  Condition j path cop v \<Rightarrow> (Inl InvalidParentType, st)
                | _ \<Rightarrow> (Inr n, st\<lparr>tree := fst (modifyNodeById (pushChild n) (tree st) pid)\<rparr>)))
      | None \<Rightarrow> (Inr n, st\<lparr>tree := tree st @ [n]\<rparr>))"

text \<open>
  The three public \<^verbatim>\<open>add*\<close> methods build the node, which evaluates
  \<^verbatim>\<open>this._generateId()\<close>, and then call \<^verbatim>\<open>_addNode\<close>.
\<close>

definition addConditionNode ::
  "string list \<Rightarrow> comparison_op \<Rightarrow> jsval \<Rightarrow> nat option \<Rightarrow> serializer \<Rightarrow> (error + nat) \<times> serializer"
where
  "addConditionNode path cop v parentId st =
     (case generateId st of
        (i, st1) \<Rightarrow>
          (case addNode (Condition i path cop v) parentId st1 of
             (Inl e, st2) \<Rightarrow> (Inl e, st2)
           | (Inr n, st2) \<Rightarrow> (Inr (node_id n), st2)))"

definition addLogicalNode ::
  "logical_op \<Rightarrow> nat option \<Rightarrow> serializer \<Rightarrow> (error + nat) \<times> serializer"
where
  "addLogicalNode lop parentId st =
     (case generateId st of
        (i, st1) \<Rightarrow>
          (case addNode (Logical i lop []) parentId st1 of
             (Inl e, st2) \<Rightarrow> (Inl e, st2)
           | (Inr n, st2) \<Rightarrow> (Inr (node_id n), st2)))"

definition addEmbeddedNode ::
  "string list \<Rightarrow> embedded_op \<Rightarrow> nat option \<Rightarrow> serializer \<Rightarrow> (error + nat) \<times> serializer"
where
  "addEmbeddedNode path eop parentId st =
     (case generateId st of
        (i, st1) \<Rightarrow>
          (case addNode (Embedded i path eop []) parentId st1 of
             (Inl e, st2) \<Rightarrow> (Inl e, st2)
           | (Inr n, st2) \<Rightarrow> (Inr (node_id n), st2)))"

text \<open>\<^verbatim>\<open>node.operator = operator; node.value = value\<close> on a condition node.\<close>

fun setOperatorValue :: "comparison_op \<Rightarrow> jsval \<Rightarrow> node \<Rightarrow> node" where
  "setOperatorValue cop v (Condition j path cop0 v0) = Condition j path cop v"
| "setOperatorValue cop v n = n"

definition updateConditionNode ::
  "nat \<Rightarrow> comparison_op \<Rightarrow> jsval \<Rightarrow> serializer \<Rightarrow> (error + bool) \<times> serializer"
where
  "updateConditionNode i cop v st =
     (case findNodeByIdIn (tree st) i of
        None \<Rightarrow> (Inl NodeNotFound, st)
      | Some n \<Rightarrow>
          (case n of
             Condition j path cop0 v0 \<Rightarrow>
               (Inr True, st\<lparr>tree := fst (modifyNodeById (setOperatorValue cop v) (tree st) i)\<rparr>)
           | _ \<Rightarrow> (Inl InvalidNodeType, st)))"

definition remove :: "nat \<Rightarrow> serializer \<Rightarrow> bool \<times> serializer" where
  "remove i st =
     (case removeNodeFromList (tree st) i of
        (nodes, removed) \<Rightarrow> (removed, st\<lparr>tree := nodes\<rparr>))"

definition clear :: "serializer \<Rightarrow> serializer" where
  "clear st = st\<lparr>tree := []\<rparr>"

section \<open>Vocabulary of the properties\<close>

text \<open>
  One value for each of the three \<^verbatim>\<open>add*\<close> methods with its arguments other than
  \<^verbatim>\<open>parentId\<close>, the method it stands for, and the node that the method builds.
\<close>

datatype add_call =
    AddCondition "string list" comparison_op jsval
  | AddLogical logical_op
  | AddEmbedded "string list" embedded_op

fun addCall :: "add_call \<Rightarrow> nat option \<Rightarrow> serializer \<Rightarrow> (error + nat) \<times> serializer" where
  "addCall (AddCondition path cop v) parentId st = addConditionNode path cop v parentId st"
| "addCall (AddLogical lop) parentId st = addLogicalNode lop parentId st"
| "addCall (AddEmbedded path eop) parentId st = addEmbeddedNode path eop parentId st"

fun newNode :: "add_call \<Rightarrow> nat \<Rightarrow> node" where
  "newNode (AddCondition path cop v) i = Condition i path cop v"
| "newNode (AddLogical lop) i = Logical i lop []"
| "newNode (AddEmbedded path eop) i = Embedded i path eop []"

text \<open>A number, string, boolean, \<^verbatim>\<open>null\<close> or \<^verbatim>\<open>undefined\<close>.\<close>

definition isPrimitive :: "jsval \<Rightarrow> bool" where
  "isPrimitive v = (case v of JObj kvs \<Rightarrow> False | JArr xs \<Rightarrow> False | _ \<Rightarrow> True)"

text \<open>The container nodes: logical and embedded.\<close>

fun isContainer :: "node \<Rightarrow> bool" where
  "isContainer (Condition j path cop v) = False"
| "isContainer (Logical j lop childNodes) = True"
| "isContainer (Embedded j path eop subtreeNodes) = True"

text \<open>
  The ids of a node and of all its descendants, and of all nodes of a tree, in the
  order of the search of \<^verbatim>\<open>_findNodeById\<close>; likewise the nodes themselves.
\<close>

fun nodeIds :: "node \<Rightarrow> nat list"
and treeIds :: "node list \<Rightarrow> nat list"
where
  "nodeIds (Condition j path cop v) = [j]"
| "nodeIds (Logical j lop childNodes) = j # treeIds childNodes"
| "nodeIds (Embedded j path eop subtreeNodes) = j # treeIds subtreeNodes"
| "treeIds [] = []"
| "treeIds (n # ns) = nodeIds n @ treeIds ns"

fun nodeAll :: "node \<Rightarrow> node list"
and treeAll :: "node list \<Rightarrow> node list"
where
  "nodeAll (Condition j path cop v) = [Condition j path cop v]"
| "nodeAll (Logical j lop childNodes) = Logical j lop childNodes # treeAll childNodes"
| "nodeAll (Embedded j path eop subtreeNodes) = Embedded j path eop subtreeNodes # treeAll subtreeNodes"
| "treeAll [] = []"
| "treeAll (n # ns) = nodeAll n @ treeAll ns"

text \<open>\<open>mapTree g\<close> applies \<open>g\<close> to every node of a tree, children first.\<close>

fun mapNode :: "(node \<Rightarrow> node) \<Rightarrow> node \<Rightarrow> node"
and mapTree :: "(node \<Rightarrow> node) \<Rightarrow> node list \<Rightarrow> node list"
where
  "mapNode g (Condition j path cop v) = g (Condition j path cop v)"
| "mapNode g (Logical j lop childNodes) = g (Logical j lop (mapTree g childNodes))"
| "mapNode g (Embedded j path eop subtreeNodes) = g (Embedded j path eop (mapTree g subtreeNodes))"
| "mapTree g [] = []"
| "mapTree g (n # ns) = mapNode g n # mapTree g ns"

text \<open>
  The edits of an instance that create or destroy nodes, and their effect on the
  instance, whatever they return or raise.
\<close>

datatype edit = Add add_call "nat option" | Remove nat | Clear

fun applyEdit :: "edit \<Rightarrow> serializer \<Rightarrow> serializer" where
  "applyEdit (Add a parentId) st = snd (addCall a parentId st)"
| "applyEdit (Remove i) st = snd (remove i st)"
| "applyEdit Clear st = clear st"

text \<open>The ids of the tree are pairwise distinct and below the id counter.\<close>

definition idsBelowCounter :: "serializer \<Rightarrow> bool" where
  "idsBelowCounter st \<longleftrightarrow>
     distinct (treeIds (tree st)) \<and> (\<forall>i\<in>set (treeIds (tree st)). i < idCounter st)"

text \<open>
  A run of the serializer from counter \<open>c\<close> to counter \<open>c'\<close> is fresh when the
  counter did not decrease and the ids of the nodes it returned are pairwise distinct
  and lie in the interval from \<open>c\<close> up to, but excluding, \<open>c'\<close>.
\<close>

definition fresh :: "nat \<Rightarrow> node list \<Rightarrow> nat \<Rightarrow> bool" where
  "fresh c ns c' \<longleftrightarrow> c \<le> c' \<and> distinct (treeIds ns) \<and> (\<forall>i\<in>set (treeIds ns). c \<le> i \<and> i < c')"

definition freshR :: "nat \<Rightarrow> (error + node list) \<times> nat \<Rightarrow> bool" where
  "freshR c r = (case r of (Inl e, c') \<Rightarrow> c \<le> c' | (Inr ns, c') \<Rightarrow> fresh c ns c')"

definition freshO :: "nat \<Rightarrow> (error + node list \<times> bool) \<times> nat \<Rightarrow> bool" where
  "freshO c r = (case r of (Inl e, c') \<Rightarrow> c \<le> c' | (Inr (ns, b), c') \<Rightarrow> fresh c ns c')"

text \<open>
  The condition-object grammar, as the specification documents the input of
  \<^verbatim>\<open>serialize\<close>. A condition object is a non-empty mapping whose keys are logical
  operators or field names: \<^verbatim>\<open>$not\<close> takes a condition object, \<^verbatim>\<open>$and\<close> and
  \<^verbatim>\<open>$or\<close> take a non-empty array of condition objects, and a field name takes a field
  value. A field value is a non-empty mapping, either of operators or of field names
  with field values. The operators of a field value are
  \<^item> a comparison operator, with any value;
  \<^item> an embedded operator, whose body is a condition object or a non-empty array of
    condition objects;
  \<^item> a logical operator: \<^verbatim>\<open>$not\<close> with a field value, \<^verbatim>\<open>$and\<close> or \<^verbatim>\<open>$or\<close> with a
    non-empty array of field values.
  A field name is a key that is no operator and that is in the scope of the value
  model. Non-emptiness at every level is what excludes semantically empty branches,
  and the keys of a mapping are pairwise distinct.

  With the flag \<open>strict\<close> set, three forms are excluded:
  \<^item> an element of an \<^verbatim>\<open>$and\<close>/\<^verbatim>\<open>$or\<close> array that is not a \<open>singleNode\<close>, that is,
    a condition object with one key, which is a logical operator or a field name
    whose value has one key, and so on down to one operator;
  \<^item> a logical operator as a key of a field value;
  \<^item> an array as the body of an embedded operator.
\<close>

definition isOperatorKey :: "string \<Rightarrow> bool" where
  "isOperatorKey k \<longleftrightarrow>
     logical_of_key k \<noteq> None \<or> embedded_of_key k \<noteq> None \<or> comparison_of_key k \<noteq> None"

definition isFieldName :: "string \<Rightarrow> bool" where
  "isFieldName k \<longleftrightarrow> \<not> isOperatorKey k \<and> k \<notin> set objectPrototypeNames"

fun singleField :: "jsval \<Rightarrow> bool" where
  "singleField (JObj [(k, v)]) = (if isOperatorKey k then True else singleField v)"
| "singleField v = False"

fun singleNode :: "jsval \<Rightarrow> bool" where
  "singleNode (JObj [(k, v)]) = (if logical_of_key k = None then singleField v else True)"
| "singleNode v = False"

fun conditionObject :: "bool \<Rightarrow> jsval \<Rightarrow> bool"
and conditionEntries :: "bool \<Rightarrow> (string \<times> jsval) list \<Rightarrow> bool"
and conditionItems :: "bool \<Rightarrow> jsval list \<Rightarrow> bool"
and fieldValue :: "bool \<Rightarrow> jsval \<Rightarrow> bool"
and operatorEntries :: "bool \<Rightarrow> (string \<times> jsval) list \<Rightarrow> bool"
and fieldEntries :: "bool \<Rightarrow> (string \<times> jsval) list \<Rightarrow> bool"
and fieldItems :: "bool \<Rightarrow> jsval list \<Rightarrow> bool"
where
  "conditionObject strict (JObj kvs) =
     (kvs \<noteq> [] \<and> distinct (map fst kvs) \<and> conditionEntries strict kvs)"
| "conditionObject strict (JArr xs) = False"
| "conditionObject strict (JStr s) = False"
| "conditionObject strict (JNum n) = False"
| "conditionObject strict (JBool b) = False"
| "conditionObject strict JNull = False"
| "conditionObject strict JUndefined = False"
| "conditionEntries strict [] = True"
| "conditionEntries strict ((k, v) # rest) =
     ((case logical_of_key k of
         Some lop \<Rightarrow>
           if lop = LNot then conditionObject strict v
           else (case v of
                   JArr items \<Rightarrow> items \<noteq> [] \<and> conditionItems strict items
                 | _ \<Rightarrow> False)
       | None \<Rightarrow> isFieldName k \<and> fieldValue strict v)
      \<and> conditionEntries strict rest)"
| "conditionItems strict [] = True"
| "conditionItems strict (item # rest) =
     (conditionObject strict item \<and> (if strict then singleNode item else True)
      \<and> conditionItems strict rest)"
| "fieldValue strict (JObj kvs) =
     (kvs \<noteq> [] \<and> distinct (map fst kvs)
      \<and> (operatorEntries strict kvs \<or> fieldEntries strict kvs))"
| "fieldValue strict (JArr xs) = False"
| "fieldValue strict (JStr s) = False"
| "fieldValue strict (JNum n) = False"
| "fieldValue strict (JBool b) = False"
| "fieldValue strict JNull = False"
| "fieldValue strict JUndefined = False"
| "operatorEntries strict [] = True"
| "operatorEntries strict ((op, v) # rest) =
     ((case embedded_of_key op of
         Some eop \<Rightarrow>
           conditionObject strict v \<or>
           (if strict then False
            else (case v of
                    JArr items \<Rightarrow> items \<noteq> [] \<and> conditionItems strict items
                  | _ \<Rightarrow> False))
       | None \<Rightarrow>
           comparison_of_key op \<noteq> None \<or>
           (if strict then False
            else (case logical_of_key op of
                    Some lop \<Rightarrow>
                      if lop = LNot then fieldValue strict v
                      else (case v of
                              JArr items \<Rightarrow> items \<noteq> [] \<and> fieldItems strict items
                            | _ \<Rightarrow> False)
                  | None \<Rightarrow> False)))
      \<and> operatorEntries strict rest)"
| "fieldEntries strict [] = True"
| "fieldEntries strict ((k, v) # rest) =
     (isFieldName k \<and> fieldValue strict v \<and> fieldEntries strict rest)"
| "fieldItems strict [] = True"
| "fieldItems strict (item # rest) = (fieldValue strict item \<and> fieldItems strict rest)"

text \<open>
  Deep equality up to key order: objects are equal when they have the same keys and
  deeply equal values under each key, arrays when they have the same length and deeply
  equal elements at each index, other values when they are the same.
\<close>

function deepEqual :: "jsval \<Rightarrow> jsval \<Rightarrow> bool" where
  "deepEqual (JObj xs) b =
     (case b of
        JObj ys \<Rightarrow>
          list_all (\<lambda>k. k \<in> set (map fst xs)) (map fst ys) \<and>
          list_all (\<lambda>k.
             case map_of xs k of
               Some v \<Rightarrow> (case map_of ys k of Some w \<Rightarrow> deepEqual v w | None \<Rightarrow> False)
             | None \<Rightarrow> False) (map fst xs)
      | _ \<Rightarrow> False)"
| "deepEqual (JArr xs) b =
     (case b of
        JArr ys \<Rightarrow> length xs = length ys \<and> list_all (\<lambda>(x, y). deepEqual x y) (zip xs ys)
      | _ \<Rightarrow> False)"
| "deepEqual (JStr s) b = (b = JStr s)"
| "deepEqual (JNum n) b = (b = JNum n)"
| "deepEqual (JBool t) b = (b = JBool t)"
| "deepEqual JNull b = (b = JNull)"
| "deepEqual JUndefined b = (b = JUndefined)"
  by pat_completeness auto
termination
proof (relation "measure (\<lambda>(a, b). size a)")
  show "wf (measure (\<lambda>(a, b). size a))" by simp
next
  fix xs :: "(string \<times> jsval) list" and k v and w b :: jsval
  assume "map_of xs k = Some v"
  then have "size v < Suc (size_list (size_prod (\<lambda>_. 0) size) xs)"
    by (induction xs) (auto split: if_splits)
  then show "((v, w), JObj xs, b) \<in> measure (\<lambda>(a, b). size a)"
    by simp
next
  fix xs ys :: "jsval list" and b z x y
  assume "z \<in> set (zip xs ys)" "(x, y) = z"
  then have "x \<in> set xs" by (auto dest: set_zip_leftD)
  then have "size x < Suc (size_list size xs)" by (metis less_Suc_eq_le size_list_estimation' order_refl)
  then show "((x, y), JArr xs, b) \<in> measure (\<lambda>(a, b). size a)" by simp
qed

text \<open>
  Notions for the round trip. A result of the serializer \<open>yields\<close> the list of
  objects that \<^verbatim>\<open>_deserializeNodes\<close> collects from its nodes before merging them. A
  list of objects \<open>mergesTo\<close> a list of entries when merging it into any object with
  other keys appends exactly these entries.
\<close>

definition mergesTo :: "jsval list \<Rightarrow> (string \<times> jsval) list \<Rightarrow> bool" where
  "mergesTo ds kvs \<longleftrightarrow>
     (\<forall>T. fst ` set T \<inter> fst ` set kvs = {} \<longrightarrow> mergeInto (JObj T) ds = Some (JObj (T @ kvs)))"

definition singleKey :: "jsval \<Rightarrow> bool" where
  "singleKey d \<longleftrightarrow> (\<exists>k v. d = JObj [(k, v)])"

definition yields :: "(error + node list) \<times> nat \<Rightarrow> jsval list \<Rightarrow> bool" where
  "yields r ds \<longleftrightarrow> (\<exists>ns. fst r = Inr ns \<and> deserializeEach ns = Some ds)"

definition yieldsOps :: "(error + node list \<times> bool) \<times> nat \<Rightarrow> bool \<Rightarrow> jsval list \<Rightarrow> bool" where
  "yieldsOps r found ds \<longleftrightarrow> (\<exists>ns. fst r = Inr (ns, found) \<and> deserializeEach ns = Some ds)"

definition condPieces :: "jsval list \<Rightarrow> jsval \<Rightarrow> bool" where
  "condPieces ds v \<longleftrightarrow>
     (\<exists>kvs. v = JObj kvs \<and> kvs \<noteq> [] \<and> ds \<noteq> [] \<and> mergesTo ds kvs)
     \<and> (singleNode v \<longrightarrow> ds = [v])"

definition fieldPieces :: "jsval list \<Rightarrow> jsval \<Rightarrow> bool" where
  "fieldPieces Ws v \<longleftrightarrow>
     (\<exists>kvs. v = JObj kvs \<and> Ws \<noteq> [] \<and> (\<forall>W\<in>set Ws. singleKey W) \<and> mergesTo Ws kvs)
     \<and> (singleField v \<longrightarrow> Ws = [v])"

definition roundTrips :: "jsval \<Rightarrow> bool" where
  "roundTrips v \<longleftrightarrow>
     (conditionObject True v \<longrightarrow>
        (\<exists>ds. (\<forall>c. yields (serializeObject v [] c) ds) \<and> condPieces ds v))
     \<and> (fieldValue True v \<longrightarrow>
        (\<exists>Ws. (\<forall>k p c. logical_of_key k = None \<longrightarrow>
                  yields (serializeKeys [(k, v)] p c) (map (buildNestedObject (p @ [k])) Ws))
              \<and> fieldPieces Ws v))
     \<and> (\<forall>items. v = JArr items \<longrightarrow> conditionItems True items \<longrightarrow>
          (\<forall>c. yields (serializeItems items [] c) items))"

section \<open>Properties of serialization\<close>

lemmas key_defs = logical_of_key_def embedded_of_key_def comparison_of_key_def

lemma isLogicalOperator_iff: "isLogicalOperator key \<longleftrightarrow> logical_of_key key \<noteq> None"
  by (simp add: isLogicalOperator_def logical_of_key_def)

lemma isEmbeddedOperator_iff: "isEmbeddedOperator key \<longleftrightarrow> embedded_of_key key \<noteq> None"
  by (simp add: isEmbeddedOperator_def embedded_of_key_def)

lemma isComparisonOperator_iff:
  "isComparisonOperator key \<longleftrightarrow> comparison_of_key key \<noteq> None"
  by (simp add: isComparisonOperator_def comparison_of_key_def)

text \<open>
  Claim C3 (deep-merge composition). Serializing
  \<^verbatim>\<open>{ "a": { "b": { "$eq": 1 } }, "c": { "$eq": 2 } }\<close> on any instance yields exactly
  two condition nodes, with field paths \<^verbatim>\<open>["a","b"]\<close> and \<^verbatim>\<open>["c"]\<close>, and
  deserializing a tree of these two nodes returns the original nested object: the
  per-node objects are merged into one mapping, there is no \<^verbatim>\<open>$and\<close> array.
\<close>

theorem deep_merge_composition_example:
  "serialize (JObj [(''a'', JObj [(''b'', JObj [(''$eq'', JNum 1)])]),
                    (''c'', JObj [(''$eq'', JNum 2)])]) st
     = (Inr [Condition (idCounter st) [''a'', ''b''] OpEq (JNum 1),
             Condition (Suc (idCounter st)) [''c''] OpEq (JNum 2)],
        \<lparr>tree = [Condition (idCounter st) [''a'', ''b''] OpEq (JNum 1),
                 Condition (Suc (idCounter st)) [''c''] OpEq (JNum 2)],
         idCounter = Suc (Suc (idCounter st))\<rparr>)
   \<and> deserialize \<lparr>tree = [Condition i [''a'', ''b''] OpEq (JNum 1),
                           Condition j [''c''] OpEq (JNum 2)],
                   idCounter = c\<rparr>
     = Some (JObj [(''a'', JObj [(''b'', JObj [(''$eq'', JNum 1)])]),
                   (''c'', JObj [(''$eq'', JNum 2)])])"
  by (simp add: serialize_def deserialize_def mergeObjects_def key_defs)

text \<open>
  Claim C2 (embedded path reset). Serializing
  \<^verbatim>\<open>{ "tags": { "$some": { "$and": [{ "x": { "$eq": 1 } }] } } }\<close> yields one embedded
  node with field path \<^verbatim>\<open>["tags"]\<close> whose subtree is one logical \<^verbatim>\<open>$and\<close> node with
  one condition child of field path \<^verbatim>\<open>["x"]\<close>. In general, wherever the loop over the
  keys of a field's value meets an embedded operator, at any current path, the subtree
  of the embedded node is the serialization of the operator's body under the empty
  path; only the embedded node itself carries the current path extended by the field.
\<close>

theorem embedded_path_reset:
  "serialize (JObj [(''tags'', JObj [(''$some'',
               JObj [(''$and'', JArr [JObj [(''x'', JObj [(''$eq'', JNum 1)])]])])])]) st
     = (Inr [Embedded (idCounter st + 2) [''tags''] OpSome
               [Logical (idCounter st + 1) LAnd
                  [Condition (idCounter st) [''x''] OpEq (JNum 1)]]],
        \<lparr>tree = [Embedded (idCounter st + 2) [''tags''] OpSome
                    [Logical (idCounter st + 1) LAnd
                       [Condition (idCounter st) [''x''] OpEq (JNum 1)]]],
         idCounter = idCounter st + 3\<rparr>)
   \<and> (embedded_of_key op = Some eop \<longrightarrow>
        serializeOps ((op, body) # rest) key currentPath c
          = (case serializeObject body [] c of
               (Inl e, c1) \<Rightarrow> (Inl e, c1)
             | (Inr subtreeNodes, c1) \<Rightarrow>
                 (case serializeOps rest key currentPath (Suc c1) of
                    (Inl e, c2) \<Rightarrow> (Inl e, c2)
                  | (Inr (others, found), c2) \<Rightarrow>
                      (Inr (Embedded c1 (currentPath @ [key]) eop subtreeNodes # others, True),
                       c2))))"
  by (auto simp: serialize_def key_defs split: prod.splits sum.splits)

theorem embedded_path_reset_witness:
  "embedded_of_key ''$every'' = Some OpEvery \<and>
   serializeOps [(''$every'', JObj [(''x'', JObj [(''$gt'', JNum 3)])]), (''$exists'', JBool True)]
       ''tags'' [''doc''] 5
     = (Inr ([Embedded 6 [''doc'', ''tags''] OpEvery [Condition 5 [''x''] OpGt (JNum 3)],
              Condition 7 [''doc'', ''tags''] OpExists (JBool True)], True), 8)"
  using embedded_path_reset [of "\<lparr>tree = [], idCounter = 0\<rparr>" "''$every''" OpEvery
               "JObj [(''x'', JObj [(''$gt'', JNum 3)])]" "[(''$exists'', JBool True)]"
               "''tags''" "[''doc'']" 5]
  by (simp add: key_defs)

lemma serializeKeys_primitive_head:
  assumes "logical_of_key k = None" "isPrimitive v"
  shows "serializeKeys ((k, v) # rest) path c = serializeKeys rest path c"
  using assms by (cases v) (auto simp: isPrimitive_def split: prod.splits sum.splits)

lemma serializeKeys_cons_cong:
  assumes "\<And>c'. serializeKeys xs path c' = serializeKeys ys path c'"
  shows "serializeKeys (kv # xs) path c = serializeKeys (kv # ys) path c"
  by (cases kv) (simp only: serializeKeys.simps assms)

lemma serializeKeys_primitive_anywhere:
  assumes "logical_of_key k = None" "isPrimitive v"
  shows "serializeKeys (pre @ (k, v) # post) path c = serializeKeys (pre @ post) path c"
proof (induction pre arbitrary: c)
  case Nil
  show ?case using assms by (simp only: append_Nil serializeKeys_primitive_head)
next
  case (Cons kv pre)
  show ?case by (simp only: append_Cons serializeKeys_cons_cong [OF Cons.IH])
qed

text \<open>
  Claim C10 (primitive field values are dropped). In the key loop, at any current
  path and wherever the key stands in the object, a key that is not a logical operator
  and whose value is a number, string, boolean, \<^verbatim>\<open>null\<close> or \<^verbatim>\<open>undefined\<close>
  contributes no node and consumes no id: the result is that of the object without
  the key. In particular \<^verbatim>\<open>serialize({ "a": 5 })\<close> yields the empty tree, and
  \<^verbatim>\<open>deserialize()\<close> then returns \<^verbatim>\<open>null\<close>.
\<close>

theorem primitive_field_dropped:
  "(logical_of_key k = None \<and> isPrimitive v \<longrightarrow>
      serializeObject (JObj (pre @ (k, v) # post)) path c
        = serializeObject (JObj (pre @ post)) path c)
   \<and> serialize (JObj [(''a'', JNum 5)]) st = (Inr [], \<lparr>tree = [], idCounter = idCounter st\<rparr>)
   \<and> deserialize (snd (serialize (JObj [(''a'', JNum 5)]) st)) = Some JNull"
  by (simp add: serializeKeys_primitive_anywhere serialize_def deserialize_def mergeObjects_def
        key_defs)

theorem primitive_field_dropped_witness:
  "logical_of_key ''b'' = None \<and> isPrimitive JNull \<and>
   serializeObject (JObj [(''a'', JObj [(''$eq'', JNum 1)]), (''b'', JNull),
                          (''c'', JObj [(''$lt'', JNum 2)])]) [] 0
     = (Inr [Condition 0 [''a''] OpEq (JNum 1), Condition 1 [''c''] OpLt (JNum 2)], 2)"
  using primitive_field_dropped [of "''b''" JNull "[(''a'', JObj [(''$eq'', JNum 1)])]"
          "[(''c'', JObj [(''$lt'', JNum 2)])]" "[]" 0]
  by (simp add: key_defs isPrimitive_def)

section \<open>Properties of the editing operations\<close>

lemma addCall_addNode:
  "addCall a parentId st =
     (case addNode (newNode a (idCounter st)) parentId (st\<lparr>idCounter := Suc (idCounter st)\<rparr>) of
        (Inl e, st2) \<Rightarrow> (Inl e, st2)
      | (Inr n, st2) \<Rightarrow> (Inr (node_id n), st2))"
  by (cases a)
    (simp_all add: addConditionNode_def addLogicalNode_def addEmbeddedNode_def generateId_def)

text \<open>
  Claim C5 (a failing \<^verbatim>\<open>add*\<close> call leaves the instance exactly as it was, id counter
  included). This does not hold: the node is built, and its id generated, before
  \<^verbatim>\<open>_addNode\<close> looks for the parent. On an instance whose tree is one condition node
  with id 0 and whose counter is 1, \<^verbatim>\<open>addConditionNode(["b"], "$eq", 1, 7)\<close> raises the
  parent-not-found error and leaves the counter at 2.
\<close>

theorem add_failure_changes_counter:
  "addConditionNode [''b''] OpEq (JNum 1) (Some 7)
       \<lparr>tree = [Condition 0 [''a''] OpEq (JNum 1)], idCounter = 1\<rparr>
     = (Inl ParentNotFound, \<lparr>tree = [Condition 0 [''a''] OpEq (JNum 1)], idCounter = 2\<rparr>)
   \<and> snd (addConditionNode [''b''] OpEq (JNum 1) (Some 7)
       \<lparr>tree = [Condition 0 [''a''] OpEq (JNum 1)], idCounter = 1\<rparr>)
     \<noteq> \<lparr>tree = [Condition 0 [''a''] OpEq (JNum 1)], idCounter = 1\<rparr>"
  by (simp add: addConditionNode_def generateId_def addNode_def)

text \<open>
  Claim C5, amended. Whenever an \<^verbatim>\<open>add*\<close> call raises an error, the error is
  parent-not-found or invalid-parent-type, the tree is exactly as it was before the
  call, and the id counter has advanced by one.
\<close>

theorem add_failure_keeps_tree:
  "fst (addCall a parentId st) = Inl e \<Longrightarrow>
     (e = ParentNotFound \<or> e = InvalidParentType) \<and>
     tree (snd (addCall a parentId st)) = tree st \<and>
     idCounter (snd (addCall a parentId st)) = Suc (idCounter st)"
  by (auto simp: addCall_addNode addNode_def
        split: option.splits node.splits prod.splits sum.splits)

theorem add_failure_keeps_tree_witness:
  "fst (addCall (AddLogical LAnd) (Some 0)
          \<lparr>tree = [Condition 0 [''a''] OpEq (JNum 1)], idCounter = 1\<rparr>)
     = Inl InvalidParentType
   \<and> snd (addCall (AddLogical LAnd) (Some 0)
          \<lparr>tree = [Condition 0 [''a''] OpEq (JNum 1)], idCounter = 1\<rparr>)
     = \<lparr>tree = [Condition 0 [''a''] OpEq (JNum 1)], idCounter = 2\<rparr>"
  using add_failure_keeps_tree [of "AddLogical LAnd" "Some 0"
          "\<lparr>tree = [Condition 0 [''a''] OpEq (JNum 1)], idCounter = 1\<rparr>" InvalidParentType]
  by (simp add: addLogicalNode_def generateId_def addNode_def)

subsection \<open>Search, in-place update and removal\<close>

lemma find_id: "findNodeByIdIn ns i = Some p \<Longrightarrow> node_id p = i"
  by (induction ns i rule: findNodeByIdIn.induct)
     (auto split: if_splits node.splits option.splits)

lemma modify_not_found:
  "findNodeByIdIn ns i = None \<Longrightarrow> modifyNodeById f ns i = (ns, False)"
  by (induction ns i rule: findNodeByIdIn.induct)
     (auto split: if_splits node.splits option.splits prod.splits)

lemma modify_found:
  "findNodeByIdIn ns i = Some p \<Longrightarrow> snd (modifyNodeById f ns i)"
  by (induction ns i rule: findNodeByIdIn.induct)
     (auto simp: modify_not_found split: if_splits node.splits option.splits prod.splits bool.splits)

lemma find_modify:
  "findNodeByIdIn ns i = Some p \<Longrightarrow> node_id (f p) = i \<Longrightarrow>
   findNodeByIdIn (fst (modifyNodeById f ns i)) i = Some (f p)"
proof (induction ns i rule: findNodeByIdIn.induct)
  case (1 i)
  then show ?case by simp
next
  case (2 n rest i)
  show ?case
  proof (cases "node_id n = i")
    case True
    with 2 show ?thesis by simp
  next
    case False
    show ?thesis
    proof (cases n)
      case (Condition j path cop v)
      with 2 False show ?thesis by (auto split: prod.splits)
    next
      case (Logical j lop childNodes)
      show ?thesis
      proof (cases "findNodeByIdIn childNodes i")
        case None
        with 2 False Logical show ?thesis
          by (auto simp: modify_not_found split: prod.splits)
      next
        case (Some q)
        with 2 False Logical modify_found [OF Some, of f] show ?thesis
          by (auto split: prod.splits bool.splits)
      qed
    next
      case (Embedded j path eop subtreeNodes)
      show ?thesis
      proof (cases "findNodeByIdIn subtreeNodes i")
        case None
        with 2 False Embedded show ?thesis
          by (auto simp: modify_not_found split: prod.splits)
      next
        case (Some q)
        with 2 False Embedded modify_found [OF Some, of f] show ?thesis
          by (auto split: prod.splits bool.splits)
      qed
    qed
  qed
qed

lemma treeIds_append [simp]: "treeIds (xs @ ys) = treeIds xs @ treeIds ys"
  by (induction xs) auto

lemma nodeIds_hd: "nodeIds n = node_id n # tl (nodeIds n)"
  by (cases n) auto

lemma node_id_in_nodeIds [simp]: "node_id n \<in> set (nodeIds n)"
  by (cases n) auto

lemma find_None_iff: "findNodeByIdIn ns i = None \<longleftrightarrow> i \<notin> set (treeIds ns)"
  by (induction ns i rule: findNodeByIdIn.induct)
     (auto split: node.splits option.splits)

lemma mapTree_id:
  "i \<notin> set (nodeIds n) \<Longrightarrow> mapNode (\<lambda>m. if node_id m = i then f m else m) n = n"
  "i \<notin> set (treeIds ns) \<Longrightarrow> mapTree (\<lambda>m. if node_id m = i then f m else m) ns = ns"
  by (induction n and ns rule: nodeIds_treeIds.induct) auto

lemma modify_mapTree:
  "distinct (treeIds ns) \<Longrightarrow> findNodeByIdIn ns i = Some p \<Longrightarrow>
   fst (modifyNodeById f ns i) = mapTree (\<lambda>m. if node_id m = i then f m else m) ns"
proof (induction ns i arbitrary: p rule: findNodeByIdIn.induct)
  case (1 i)
  then show ?case by simp
next
  case (2 n rest i)
  show ?case
  proof (cases "node_id n = i")
    case True
    with 2(4) show ?thesis
      by (cases n) (auto simp: mapTree_id)
  next
    case False
    show ?thesis
    proof (cases n)
      case (Condition j path cop v)
      with 2 False show ?thesis by (auto split: prod.splits)
    next
      case (Logical j lop childNodes)
      show ?thesis
      proof (cases "findNodeByIdIn childNodes i")
        case None
        then have "i \<notin> set (treeIds childNodes)" by (simp add: find_None_iff)
        with 2 False Logical None show ?thesis
          by (auto simp: modify_not_found mapTree_id split: prod.splits)
      next
        case (Some q)
        then have "i \<in> set (treeIds childNodes)" using find_None_iff [of childNodes i] by auto
        with 2(4) Logical have "i \<notin> set (treeIds rest)" by auto
        with 2 False Logical Some modify_found [OF Some, of f] show ?thesis
          by (auto simp: mapTree_id split: prod.splits bool.splits)
      qed
    next
      case (Embedded j path eop subtreeNodes)
      show ?thesis
      proof (cases "findNodeByIdIn subtreeNodes i")
        case None
        then have "i \<notin> set (treeIds subtreeNodes)" by (simp add: find_None_iff)
        with 2 False Embedded None show ?thesis
          by (auto simp: modify_not_found mapTree_id split: prod.splits)
      next
        case (Some q)
        then have "i \<in> set (treeIds subtreeNodes)" using find_None_iff [of subtreeNodes i] by auto
        with 2(4) Embedded have "i \<notin> set (treeIds rest)" by auto
        with 2 False Embedded Some modify_found [OF Some, of f] show ?thesis
          by (auto simp: mapTree_id split: prod.splits bool.splits)
      qed
    qed
  qed
qed

lemma newNode_id [simp]: "node_id (newNode a i) = i"
  by (cases a) auto

lemma pushChild_id [simp]: "node_id (pushChild n p) = node_id p"
  by (cases p) auto

lemma setOperatorValue_id [simp]: "node_id (setOperatorValue cop v p) = node_id p"
  by (cases p) auto

lemma mset_push:
  "findNodeByIdIn ns i = Some p \<Longrightarrow> isContainer p \<Longrightarrow>
   mset (treeIds (fst (modifyNodeById (pushChild n) ns i))) = mset (treeIds ns) + mset (nodeIds n)"
proof (induction ns i rule: findNodeByIdIn.induct)
  case (1 i)
  then show ?case by simp
next
  case (2 m rest i)
  show ?case
  proof (cases "node_id m = i")
    case True
    with 2 show ?thesis by (cases m) auto
  next
    case False
    show ?thesis
    proof (cases m)
      case (Condition j path cop v)
      with 2 False show ?thesis by (auto split: prod.splits)
    next
      case (Logical j lop childNodes)
      show ?thesis
      proof (cases "findNodeByIdIn childNodes i")
        case None
        with 2 False Logical show ?thesis
          by (auto simp: modify_not_found split: prod.splits)
      next
        case (Some q)
        with 2 False Logical modify_found [OF Some, of "pushChild n"] show ?thesis
          by (auto split: prod.splits bool.splits)
      qed
    next
      case (Embedded j path eop subtreeNodes)
      show ?thesis
      proof (cases "findNodeByIdIn subtreeNodes i")
        case None
        with 2 False Embedded show ?thesis
          by (auto simp: modify_not_found split: prod.splits)
      next
        case (Some q)
        with 2 False Embedded modify_found [OF Some, of "pushChild n"] show ?thesis
          by (auto split: prod.splits bool.splits)
      qed
    qed
  qed
qed

lemma remove_not_found:
  "findNodeByIdIn ns i = None \<Longrightarrow> removeNodeFromList ns i = (ns, False)"
  by (induction ns i rule: findNodeByIdIn.induct)
     (auto split: if_splits node.splits option.splits prod.splits)

lemma remove_found:
  "findNodeByIdIn ns i = Some p \<Longrightarrow>
   snd (removeNodeFromList ns i) \<and>
   mset (treeIds (fst (removeNodeFromList ns i))) + mset (nodeIds p) = mset (treeIds ns)"
proof (induction ns i rule: findNodeByIdIn.induct)
  case (1 i)
  then show ?case by simp
next
  case (2 m rest i)
  show ?case
  proof (cases "node_id m = i")
    case True
    with 2 show ?thesis by auto
  next
    case False
    show ?thesis
    proof (cases m)
      case (Condition j path cop v)
      with 2 False show ?thesis by (auto split: prod.splits)
    next
      case (Logical j lop childNodes)
      show ?thesis
      proof (cases "findNodeByIdIn childNodes i")
        case None
        with 2 False Logical show ?thesis
          by (auto simp: remove_not_found split: prod.splits)
      next
        case (Some q)
        with 2 False Logical show ?thesis
          by (auto split: prod.splits bool.splits)
      qed
    next
      case (Embedded j path eop subtreeNodes)
      show ?thesis
      proof (cases "findNodeByIdIn subtreeNodes i")
        case None
        with 2 False Embedded show ?thesis
          by (auto simp: remove_not_found split: prod.splits)
      next
        case (Some q)
        with 2 False Embedded show ?thesis
          by (auto split: prod.splits bool.splits)
      qed
    qed
  qed
qed

lemma treeAll_ids:
  "map node_id (nodeAll n) = nodeIds n"
  "map node_id (treeAll ns) = treeIds ns"
  by (induction n and ns rule: nodeAll_treeAll.induct) auto

lemma find_in_treeAll: "findNodeByIdIn ns i = Some p \<Longrightarrow> p \<in> set (treeAll ns)"
proof (induction ns i rule: findNodeByIdIn.induct)
  case (1 i)
  then show ?case by simp
next
  case (2 m rest i)
  then show ?case
    by (cases m) (auto split: if_splits option.splits)
qed

lemma find_member:
  assumes "distinct (treeIds ns)" "n \<in> set (treeAll ns)"
  shows "findNodeByIdIn ns (node_id n) = Some n"
proof -
  have "node_id n \<in> set (treeIds ns)"
    using assms(2) treeAll_ids(2) [of ns, symmetric] by auto
  then obtain p where p: "findNodeByIdIn ns (node_id n) = Some p"
    using find_None_iff [of ns "node_id n"] by auto
  then have "p \<in> set (treeAll ns)" "node_id p = node_id n"
    by (auto dest: find_in_treeAll find_id)
  moreover have "inj_on node_id (set (treeAll ns))"
    using assms(1) by (simp add: treeAll_ids(2) [symmetric] distinct_map)
  ultimately have "p = n" using assms(2) by (auto dest: inj_onD)
  with p show ?thesis by simp
qed

text \<open>
  Claim C6 (container-only attachment). For an \<^verbatim>\<open>add*\<close> call with parent id \<open>x\<close>:
  if no node of the tree has id \<open>x\<close> the call raises the parent-not-found error;
  if the node found is a condition node it raises the invalid-parent-type error; in
  both cases the tree is unchanged. If the node found is a logical or embedded node,
  the call returns the new id and afterwards the node with id \<open>x\<close> is the former one
  with the new node appended to its children or subtree.
\<close>

theorem container_only_attachment:
  "(findNodeById x st = None \<longrightarrow>
      fst (addCall a (Some x) st) = Inl ParentNotFound \<and>
      tree (snd (addCall a (Some x) st)) = tree st)
   \<and> (findNodeById x st = Some parent \<and> \<not> isContainer parent \<longrightarrow>
      fst (addCall a (Some x) st) = Inl InvalidParentType \<and>
      tree (snd (addCall a (Some x) st)) = tree st)
   \<and> (findNodeById x st = Some parent \<and> isContainer parent \<longrightarrow>
      fst (addCall a (Some x) st) = Inr (idCounter st) \<and>
      findNodeById x (snd (addCall a (Some x) st))
        = Some (pushChild (newNode a (idCounter st)) parent))"
proof -
  have "findNodeByIdIn (tree st) x = Some parent \<Longrightarrow>
        findNodeByIdIn (fst (modifyNodeById (pushChild (newNode a (idCounter st))) (tree st) x)) x
          = Some (pushChild (newNode a (idCounter st)) parent)"
    using find_id [of "tree st" x parent] by (simp add: find_modify)
  then show ?thesis
    by (cases parent) (auto simp: addCall_addNode addNode_def findNodeById_def)
qed

theorem container_only_attachment_witness:
  "findNodeById 5 \<lparr>tree = [Logical 0 LAnd [Condition 1 [''a''] OpEq (JNum 1)]], idCounter = 2\<rparr> = None
   \<and> fst (addCall (AddLogical LOr) (Some 5)
          \<lparr>tree = [Logical 0 LAnd [Condition 1 [''a''] OpEq (JNum 1)]], idCounter = 2\<rparr>)
       = Inl ParentNotFound
   \<and> findNodeById 1 \<lparr>tree = [Logical 0 LAnd [Condition 1 [''a''] OpEq (JNum 1)]], idCounter = 2\<rparr>
       = Some (Condition 1 [''a''] OpEq (JNum 1))
   \<and> fst (addCall (AddLogical LOr) (Some 1)
          \<lparr>tree = [Logical 0 LAnd [Condition 1 [''a''] OpEq (JNum 1)]], idCounter = 2\<rparr>)
       = Inl InvalidParentType
   \<and> findNodeById 0 \<lparr>tree = [Logical 0 LAnd [Condition 1 [''a''] OpEq (JNum 1)]], idCounter = 2\<rparr>
       = Some (Logical 0 LAnd [Condition 1 [''a''] OpEq (JNum 1)])
   \<and> fst (addCall (AddLogical LOr) (Some 0)
          \<lparr>tree = [Logical 0 LAnd [Condition 1 [''a''] OpEq (JNum 1)]], idCounter = 2\<rparr>)
       = Inr 2
   \<and> findNodeById 0 (snd (addCall (AddLogical LOr) (Some 0)
          \<lparr>tree = [Logical 0 LAnd [Condition 1 [''a''] OpEq (JNum 1)]], idCounter = 2\<rparr>))
       = Some (Logical 0 LAnd [Condition 1 [''a''] OpEq (JNum 1), Logical 2 LOr []])"
  using
    container_only_attachment [of 5
      "\<lparr>tree = [Logical 0 LAnd [Condition 1 [''a''] OpEq (JNum 1)]], idCounter = 2\<rparr>"
      "AddLogical LOr"]
    container_only_attachment [of 1
      "\<lparr>tree = [Logical 0 LAnd [Condition 1 [''a''] OpEq (JNum 1)]], idCounter = 2\<rparr>"
      "AddLogical LOr" "Condition 1 [''a''] OpEq (JNum 1)"]
    container_only_attachment [of 0
      "\<lparr>tree = [Logical 0 LAnd [Condition 1 [''a''] OpEq (JNum 1)]], idCounter = 2\<rparr>"
      "AddLogical LOr" "Logical 0 LAnd [Condition 1 [''a''] OpEq (JNum 1)]"]
  by (simp add: findNodeById_def)

text \<open>
  Claim C7 (update restricted to conditions). \<^verbatim>\<open>updateConditionNode(id, operator, value)\<close>
  raises the node-not-found error when no node of the tree has the id, and the
  invalid-node-type error when the node found is a logical or embedded node; in both
  cases the instance is unchanged. When the node found is a condition node, in a tree
  with pairwise distinct ids, the call returns \<^verbatim>\<open>true\<close>, every node with another id
  is unchanged, and the node with the given id keeps its id, field path and type and
  has the new operator and value.
\<close>

theorem update_restricted_to_conditions:
  "(findNodeById i st = None \<longrightarrow> updateConditionNode i cop v st = (Inl NodeNotFound, st))
   \<and> (findNodeById i st = Some n \<and> isContainer n \<longrightarrow>
        updateConditionNode i cop v st = (Inl InvalidNodeType, st))
   \<and> (findNodeById i st = Some (Condition j path cop0 v0) \<and> distinct (treeIds (tree st)) \<longrightarrow>
        updateConditionNode i cop v st
          = (Inr True,
             st\<lparr>tree := mapTree (\<lambda>m. if node_id m = i then setOperatorValue cop v m else m)
                            (tree st)\<rparr>)
        \<and> findNodeById i (snd (updateConditionNode i cop v st)) = Some (Condition j path cop v))"
proof -
  have "findNodeByIdIn (tree st) i = Some (Condition j path cop0 v0) \<Longrightarrow>
        findNodeByIdIn (fst (modifyNodeById (setOperatorValue cop v) (tree st) i)) i
          = Some (Condition j path cop v)"
    using find_id [of "tree st" i "Condition j path cop0 v0"]
      find_modify [of "tree st" i "Condition j path cop0 v0" "setOperatorValue cop v"]
    by simp
  then show ?thesis
    by (cases n) (auto simp: updateConditionNode_def findNodeById_def modify_mapTree)
qed

theorem update_restricted_to_conditions_witness:
  "findNodeById 5 \<lparr>tree = [Logical 0 LAnd [Condition 1 [''a''] OpEq (JNum 1)]], idCounter = 2\<rparr> = None
   \<and> updateConditionNode 5 OpGt (JNum 7)
         \<lparr>tree = [Logical 0 LAnd [Condition 1 [''a''] OpEq (JNum 1)]], idCounter = 2\<rparr>
       = (Inl NodeNotFound,
          \<lparr>tree = [Logical 0 LAnd [Condition 1 [''a''] OpEq (JNum 1)]], idCounter = 2\<rparr>)
   \<and> isContainer (Logical 0 LAnd [Condition 1 [''a''] OpEq (JNum 1)])
   \<and> updateConditionNode 0 OpGt (JNum 7)
         \<lparr>tree = [Logical 0 LAnd [Condition 1 [''a''] OpEq (JNum 1)]], idCounter = 2\<rparr>
       = (Inl InvalidNodeType,
          \<lparr>tree = [Logical 0 LAnd [Condition 1 [''a''] OpEq (JNum 1)]], idCounter = 2\<rparr>)
   \<and> distinct (treeIds [Logical 0 LAnd [Condition 1 [''a''] OpEq (JNum 1)]])
   \<and> updateConditionNode 1 OpGt (JNum 7)
         \<lparr>tree = [Logical 0 LAnd [Condition 1 [''a''] OpEq (JNum 1)]], idCounter = 2\<rparr>
       = (Inr True,
          \<lparr>tree = [Logical 0 LAnd [Condition 1 [''a''] OpGt (JNum 7)]], idCounter = 2\<rparr>)"
  using
    update_restricted_to_conditions [of 5
      "\<lparr>tree = [Logical 0 LAnd [Condition 1 [''a''] OpEq (JNum 1)]], idCounter = 2\<rparr>"
      OpGt "JNum 7"]
    update_restricted_to_conditions [of 0
      "\<lparr>tree = [Logical 0 LAnd [Condition 1 [''a''] OpEq (JNum 1)]], idCounter = 2\<rparr>"
      OpGt "JNum 7" "Logical 0 LAnd [Condition 1 [''a''] OpEq (JNum 1)]"]
    update_restricted_to_conditions [of 1
      "\<lparr>tree = [Logical 0 LAnd [Condition 1 [''a''] OpEq (JNum 1)]], idCounter = 2\<rparr>"
      OpGt "JNum 7" _ 1 "[''a'']" OpEq "JNum 1"]
  by (simp add: findNodeById_def)

text \<open>
  Claim C8 (removal cascades). In a tree with pairwise distinct ids, for every node
  \<open>n\<close> of the tree, in particular every logical or embedded node, \<^verbatim>\<open>remove(n.id)\<close>
  returns \<^verbatim>\<open>true\<close>, and afterwards \<^verbatim>\<open>findNodeById\<close> finds neither the id of \<open>n\<close>
  nor the id of any former descendant of \<open>n\<close>.
\<close>

theorem removal_cascades:
  assumes "distinct (treeIds (tree st))" "n \<in> set (treeAll (tree st))" "d \<in> set (nodeIds n)"
  shows "fst (remove (node_id n) st) \<and> findNodeById d (snd (remove (node_id n) st)) = None"
proof -
  let ?r = "removeNodeFromList (tree st) (node_id n)"
  have f: "findNodeByIdIn (tree st) (node_id n) = Some n"
    using assms(1,2) by (rule find_member)
  from remove_found [OF f] have s: "snd ?r"
    and m: "mset (treeIds (fst ?r) @ nodeIds n) = mset (treeIds (tree st))" by auto
  from m assms(1) have "distinct (treeIds (fst ?r) @ nodeIds n)"
    using mset_eq_imp_distinct_iff by blast
  with assms(3) have "d \<notin> set (treeIds (fst ?r))" by auto
  then have "findNodeByIdIn (fst ?r) d = None" by (simp add: find_None_iff)
  with s show ?thesis by (auto simp: remove_def findNodeById_def split: prod.splits)
qed

theorem removal_cascades_witness:
  "distinct (treeIds [Logical 0 LAnd
        [Embedded 1 [''tags''] OpSome [Condition 2 [''x''] OpEq (JNum 1)]],
      Condition 3 [''c''] OpLt (JNum 2)])
   \<and> Embedded 1 [''tags''] OpSome [Condition 2 [''x''] OpEq (JNum 1)]
       \<in> set (treeAll [Logical 0 LAnd
             [Embedded 1 [''tags''] OpSome [Condition 2 [''x''] OpEq (JNum 1)]],
           Condition 3 [''c''] OpLt (JNum 2)])
   \<and> 2 \<in> set (nodeIds (Embedded 1 [''tags''] OpSome [Condition 2 [''x''] OpEq (JNum 1)]))
   \<and> remove 1 \<lparr>tree = [Logical 0 LAnd
             [Embedded 1 [''tags''] OpSome [Condition 2 [''x''] OpEq (JNum 1)]],
           Condition 3 [''c''] OpLt (JNum 2)], idCounter = 4\<rparr>
       = (True, \<lparr>tree = [Logical 0 LAnd [], Condition 3 [''c''] OpLt (JNum 2)], idCounter = 4\<rparr>)
   \<and> findNodeById 2 (snd (remove 1 \<lparr>tree = [Logical 0 LAnd
             [Embedded 1 [''tags''] OpSome [Condition 2 [''x''] OpEq (JNum 1)]],
           Condition 3 [''c''] OpLt (JNum 2)], idCounter = 4\<rparr>)) = None"
  using removal_cascades [of
      "\<lparr>tree = [Logical 0 LAnd
             [Embedded 1 [''tags''] OpSome [Condition 2 [''x''] OpEq (JNum 1)]],
           Condition 3 [''c''] OpLt (JNum 2)], idCounter = 4\<rparr>"
      "Embedded 1 [''tags''] OpSome [Condition 2 [''x''] OpEq (JNum 1)]" 2]
  by (simp add: remove_def findNodeById_def)

subsection \<open>Ids\<close>

lemma fresh_nil: "c \<le> c' \<Longrightarrow> fresh c [] c'"
  by (simp add: fresh_def)

lemma fresh_append: "fresh c xs c1 \<Longrightarrow> fresh c1 ys c2 \<Longrightarrow> fresh c (xs @ ys) c2"
  by (fastforce simp: fresh_def)

lemma fresh_le: "fresh c xs c1 \<Longrightarrow> c \<le> c1"
  by (simp add: fresh_def)

lemma fresh_le_trans: "fresh c xs c1 \<Longrightarrow> c1 \<le> c2 \<Longrightarrow> c \<le> c2"
  by (simp add: fresh_def)

lemma fresh_logical: "fresh c xs c1 \<Longrightarrow> fresh c [Logical c1 lop xs] (Suc c1)"
  by (fastforce simp: fresh_def)

lemma fresh_embedded: "fresh c xs c1 \<Longrightarrow> fresh c [Embedded c1 p eop xs] (Suc c1)"
  by (fastforce simp: fresh_def)

lemma fresh_condition: "fresh c [Condition c p cop v] (Suc c)"
  by (fastforce simp: fresh_def)

lemma fresh_weaken: "c0 \<le> c \<Longrightarrow> fresh c xs c1 \<Longrightarrow> fresh c0 xs c1"
  by (fastforce simp: fresh_def)

lemma freshR_Inr [simp]: "freshR c (Inr ns, c') = fresh c ns c'"
  by (simp add: freshR_def)

lemma freshR_Inl [simp]: "freshR c (Inl e, c') = (c \<le> c')"
  by (simp add: freshR_def)

lemma freshO_Inr [simp]: "freshO c (Inr (ns, b), c') = fresh c ns c'"
  by (simp add: freshO_def)

lemma freshO_Inl [simp]: "freshO c (Inl e, c') = (c \<le> c')"
  by (simp add: freshO_def)

lemma freshR_le: "freshR c r \<Longrightarrow> c \<le> snd r"
  by (auto simp: freshR_def fresh_def split: prod.splits sum.splits)

lemma freshO_le: "freshO c r \<Longrightarrow> c \<le> snd r"
  by (auto simp: freshO_def fresh_def split: prod.splits sum.splits)

lemma fresh_items:
  assumes "\<And>v p c. v \<in> set items \<Longrightarrow> freshR c (serializeObject v p c)"
  shows "freshR c (serializeItems items path c)"
  using assms
proof (induction items arbitrary: c)
  case Nil
  then show ?case by (simp add: fresh_nil)
next
  case (Cons item rest)
  have h: "freshR c (serializeObject item path c)" by (simp add: Cons.prems)
  have t: "\<And>c'. freshR c' (serializeItems rest path c')"
    by (rule Cons.IH) (simp add: Cons.prems)
  obtain r c1 where r: "serializeObject item path c = (r, c1)" by (cases "serializeObject item path c")
  obtain r2 c2 where r2: "serializeItems rest path c1 = (r2, c2)" by (cases "serializeItems rest path c1")
  show ?case using h t [of c1] r r2
    by (cases r; cases r2) (auto intro: fresh_append fresh_le_trans dest: fresh_le)
qed

lemma fresh_ops:
  assumes "\<And>v p c. v \<in> snd ` set ops \<Longrightarrow> freshR c (serializeObject v p c)"
  shows "freshO c (serializeOps ops key path c)"
  using assms
proof (induction ops arbitrary: c)
  case Nil
  then show ?case by (simp add: fresh_nil)
next
  case (Cons kv rest)
  obtain op v where kv: "kv = (op, v)" by (cases kv)
  have h: "\<And>p c. freshR c (serializeObject v p c)" by (simp add: Cons.prems kv)
  have t: "\<And>c'. freshO c' (serializeOps rest key path c')"
    by (rule Cons.IH) (simp add: Cons.prems)
  define step where "step =
        (case embedded_of_key op of
           Some eop \<Rightarrow>
             (case serializeObject v [] c of
                (Inl e, c1) \<Rightarrow> (Inl e, c1)
              | (Inr subtreeNodes, c1) \<Rightarrow>
                  (Inr ([Embedded c1 (path @ [key]) eop subtreeNodes], True), Suc c1))
         | None \<Rightarrow>
             (case comparison_of_key op of
                Some cop \<Rightarrow> (Inr ([Condition c (path @ [key]) cop v], True), Suc c)
              | None \<Rightarrow>
                  (case logical_of_key op of
                     Some lop \<Rightarrow>
                       (case serializeObject v (path @ [key]) c of
                          (Inl e, c1) \<Rightarrow> (Inl e, c1)
                        | (Inr childNodes, c1) \<Rightarrow>
                            (Inr ([Logical c1 lop childNodes], True), Suc c1))
                   | None \<Rightarrow> (Inr ([], False), c))))"
  have s: "freshO c step"
    using h [of c "[]"] h [of c "path @ [key]"] unfolding step_def
    by (auto split: option.splits prod.splits sum.splits
        intro: fresh_embedded fresh_logical fresh_condition fresh_nil dest: fresh_le)
  obtain r c2 where r: "step = (r, c2)" by (cases step)
  obtain r3 c3 where r3: "serializeOps rest key path c2 = (r3, c3)"
    by (cases "serializeOps rest key path c2")
  have "serializeOps (kv # rest) key path c =
      (case step of (Inl e, c2) \<Rightarrow> (Inl e, c2)
       | (Inr (nodes, found), c2) \<Rightarrow>
          (case serializeOps rest key path c2 of
             (Inl e, c3) \<Rightarrow> (Inl e, c3)
           | (Inr (others, found'), c3) \<Rightarrow> (Inr (nodes @ others, found \<or> found'), c3)))"
    unfolding step_def kv by simp
  then show ?case using s t [of c2] r r3
    by (cases r; cases r3) (auto intro: fresh_append fresh_le_trans dest: fresh_le)
qed

lemma fresh_keys:
  assumes "\<And>v p c. v \<in> snd ` set kvs \<Longrightarrow> freshR c (serializeObject v p c)"
    and "\<And>ops key p c. JObj ops \<in> snd ` set kvs \<Longrightarrow> freshO c (serializeOps ops key p c)"
    and "\<And>items p c. JArr items \<in> snd ` set kvs \<Longrightarrow> freshR c (serializeItems items p c)"
  shows "freshR c (serializeKeys kvs path c)"
  using assms
proof (induction kvs arbitrary: c)
  case Nil
  then show ?case by (simp add: fresh_nil)
next
  case (Cons kv rest)
  obtain key val where kv: "kv = (key, val)" by (cases kv)
  have h1: "\<And>p c. freshR c (serializeObject val p c)" by (simp add: Cons.prems(1) kv)
  have h2: "\<And>ops k p c. val = JObj ops \<Longrightarrow> freshO c (serializeOps ops k p c)"
    by (simp add: Cons.prems(2) kv)
  have h3: "\<And>items p c. val = JArr items \<Longrightarrow> freshR c (serializeItems items p c)"
    by (simp add: Cons.prems(3) kv)
  have t: "\<And>c'. freshR c' (serializeKeys rest path c')"
    by (rule Cons.IH) (simp_all add: Cons.prems)
  define step where "step =
        (case logical_of_key key of
           Some lop \<Rightarrow>
             if lop = LNot then
               (case serializeObject val path c of
                  (Inl e, c1) \<Rightarrow> (Inl e, c1)
                | (Inr childNodes, c1) \<Rightarrow> (Inr [Logical c1 LNot childNodes], Suc c1))
             else
               (case val of
                  JArr items \<Rightarrow>
                    (case serializeItems items path c of
                       (Inl e, c1) \<Rightarrow> (Inl e, c1)
                     | (Inr childNodes, c1) \<Rightarrow> (Inr [Logical c1 lop childNodes], Suc c1))
                | JStr s \<Rightarrow> (Inr [Logical c lop []], Suc c)
                | _ \<Rightarrow> (Inl NotIterable, c))
         | None \<Rightarrow>
             (case (case val of
                      JObj ops \<Rightarrow> serializeOps ops key path c
                    | _ \<Rightarrow> (Inr ([], False), c)) of
                (Inl e, c1) \<Rightarrow> (Inl e, c1)
              | (Inr (fieldNodes, operatorFound), c1) \<Rightarrow>
                  if \<not> operatorFound \<and> truthy val \<and> typeof_object val
                  then serializeObject val (path @ [key]) c1
                  else (Inr fieldNodes, c1)))"
  have s: "freshR c step"
  proof (cases "logical_of_key key")
    case (Some lop)
    show ?thesis
    proof (cases "lop = LNot")
      case True
      with Some h1 [of c path] show ?thesis unfolding step_def
        by (auto split: prod.splits sum.splits intro: fresh_logical dest: fresh_le)
    next
      case False
      with Some h3 [of _ c path] show ?thesis unfolding step_def
        by (auto split: prod.splits sum.splits jsval.splits
            intro: fresh_logical fresh_nil dest: fresh_le)
    qed
  next
    case None
    define r where "r = (case val of JObj ops \<Rightarrow> serializeOps ops key path c
                    | _ \<Rightarrow> (Inr ([], False), c))"
    have fr: "freshO c r" unfolding r_def using h2 [of _ c key path]
      by (auto split: jsval.splits intro: fresh_nil)
    obtain x c1 where x: "r = (x, c1)" by (cases r)
    show ?thesis
    proof (cases x)
      case (Inl e)
      with None fr x show ?thesis unfolding step_def r_def [symmetric] by simp
    next
      case (Inr p)
      obtain fieldNodes operatorFound where p: "p = (fieldNodes, operatorFound)" by (cases p)
      have f1: "fresh c fieldNodes c1" using fr x Inr p by simp
      show ?thesis
      proof (cases "\<not> operatorFound \<and> truthy val \<and> typeof_object val")
        case True
        have "freshR c (serializeObject val (path @ [key]) c1)"
          using h1 [of c1 "path @ [key]"] fresh_le [OF f1]
          by (auto simp: freshR_def split: prod.splits sum.splits intro: fresh_weaken)
        with None x Inr p True show ?thesis unfolding step_def r_def [symmetric] by simp
      next
        case False
        with None x Inr p f1 show ?thesis unfolding step_def r_def [symmetric] by auto
      qed
    qed
  qed
  obtain r c2 where r: "step = (r, c2)" by (cases step)
  obtain r3 c3 where r3: "serializeKeys rest path c2 = (r3, c3)"
    by (cases "serializeKeys rest path c2")
  have "serializeKeys (kv # rest) path c =
      (case step of (Inl e, c2) \<Rightarrow> (Inl e, c2)
       | (Inr nodes, c2) \<Rightarrow>
          (case serializeKeys rest path c2 of
             (Inl e, c3) \<Rightarrow> (Inl e, c3)
           | (Inr others, c3) \<Rightarrow> (Inr (nodes @ others), c3)))"
    unfolding step_def kv by simp
  then show ?case using s t [of c2] r r3
    by (cases r; cases r3) (auto intro: fresh_append fresh_le_trans dest: fresh_le)
qed

lemma serialize_fresh_all:
  "(\<forall>p c. freshR c (serializeObject v p c)) \<and>
   (\<forall>ops key p c. v = JObj ops \<longrightarrow> freshO c (serializeOps ops key p c)) \<and>
   (\<forall>items p c. v = JArr items \<longrightarrow> freshR c (serializeItems items p c))"
proof (induction v)
  case (JArr items)
  then have "\<And>p c. freshR c (serializeItems items p c)" by (intro fresh_items) auto
  then show ?case by simp
next
  case (JObj kvs)
  have 1: "\<And>v p c. v \<in> snd ` set kvs \<Longrightarrow> freshR c (serializeObject v p c)"
    using JObj by (auto simp: snds.simps)
  have "\<And>p c. freshR c (serializeKeys kvs p c)"
    using JObj by (intro fresh_keys) (auto simp: snds.simps)
  moreover have "\<And>key p c. freshO c (serializeOps kvs key p c)"
    using 1 by (intro fresh_ops) auto
  ultimately show ?case by simp
qed (simp_all add: fresh_nil)

lemma serializeObject_fresh: "freshR c (serializeObject v p c)"
  using serialize_fresh_all [of v] by blast

lemma newNode_ids [simp]: "nodeIds (newNode a i) = [i]"
  by (cases a) auto

lemma inv_construct: "construct q = Inr st \<Longrightarrow> idsBelowCounter st"
  using serializeObject_fresh [of 0 "the q" "[]"]
  by (auto simp: construct_def serialize_def idsBelowCounter_def fresh_def
      split: option.splits if_splits prod.splits sum.splits)

lemma addCall_counter: "idCounter (snd (addCall a parentId st)) = Suc (idCounter st)"
  by (auto simp: addCall_addNode addNode_def split: option.splits node.splits)

lemma addCall_result: "addCall a parentId st = (Inr j, st') \<Longrightarrow> j = idCounter st"
  by (auto simp: addCall_addNode addNode_def split: option.splits node.splits)

lemma addCall_ids:
  "mset (treeIds (tree (snd (addCall a parentId st))))
     = mset (treeIds (tree st)) + (case fst (addCall a parentId st) of
          Inl e \<Rightarrow> {#} | Inr j \<Rightarrow> {#idCounter st#})"
proof (cases parentId)
  case None
  then show ?thesis by (simp add: addCall_addNode addNode_def)
next
  case (Some pid)
  show ?thesis
  proof (cases "findNodeByIdIn (tree st) pid")
    case None
    with Some show ?thesis by (simp add: addCall_addNode addNode_def)
  next
    case f: (Some p)
    show ?thesis
    proof (cases "isContainer p")
      case True
      from mset_push [OF f True, of "newNode a (idCounter st)"] Some f True
      show ?thesis by (cases p) (simp_all add: addCall_addNode addNode_def)
    next
      case False
      with Some f show ?thesis by (cases p) (simp_all add: addCall_addNode addNode_def)
    qed
  qed
qed

lemma inv_add: 
  assumes "idsBelowCounter st" shows "idsBelowCounter (snd (addCall a parentId st))"
proof -
  let ?st = "snd (addCall a parentId st)"
  have m: "mset (treeIds (tree ?st)) = mset (treeIds (tree st)) \<or>
        mset (treeIds (tree ?st)) = mset (treeIds (tree st) @ [idCounter st])"
    using addCall_ids [of a parentId st] by (auto split: sum.splits)
  have d: "distinct (treeIds (tree st) @ [idCounter st])"
    using assms by (auto simp: idsBelowCounter_def)
  from m have "distinct (treeIds (tree ?st))"
  proof
    assume "mset (treeIds (tree ?st)) = mset (treeIds (tree st))"
    then show ?thesis using assms mset_eq_imp_distinct_iff unfolding idsBelowCounter_def by blast
  next
    assume "mset (treeIds (tree ?st)) = mset (treeIds (tree st) @ [idCounter st])"
    then show ?thesis using d mset_eq_imp_distinct_iff by blast
  qed
  moreover have "set (treeIds (tree ?st)) \<subseteq> set (treeIds (tree st)) \<union> {idCounter st}"
  proof -
    from m have "set (treeIds (tree ?st)) = set (treeIds (tree st)) \<or>
        set (treeIds (tree ?st)) = set (treeIds (tree st) @ [idCounter st])"
      by (metis mset_eq_setD)
    then show ?thesis by auto
  qed
  ultimately show ?thesis using assms
    by (auto simp: idsBelowCounter_def addCall_counter less_Suc_eq)
qed

lemma remove_ids:
  assumes "distinct (treeIds ns)"
  shows "distinct (treeIds (fst (removeNodeFromList ns i))) \<and>
         set (treeIds (fst (removeNodeFromList ns i))) \<subseteq> set (treeIds ns)"
proof (cases "findNodeByIdIn ns i")
  case None
  with assms show ?thesis by (simp add: remove_not_found)
next
  case (Some p)
  let ?ns = "fst (removeNodeFromList ns i)"
  from remove_found [OF Some] have m: "mset (treeIds ?ns @ nodeIds p) = mset (treeIds ns)"
    by simp
  then have "distinct (treeIds ?ns @ nodeIds p)"
    using assms mset_eq_imp_distinct_iff by blast
  moreover have "set (treeIds ?ns @ nodeIds p) = set (treeIds ns)"
    using m by (rule mset_eq_setD)
  ultimately show ?thesis by auto
qed

lemma inv_remove:
  assumes "idsBelowCounter st" shows "idsBelowCounter (snd (remove i st))"
proof -
  obtain ns b where r: "removeNodeFromList (tree st) i = (ns, b)"
    by (cases "removeNodeFromList (tree st) i")
  then have st': "snd (remove i st) = st\<lparr>tree := ns\<rparr>" by (simp add: remove_def)
  have "distinct (treeIds (tree st))" using assms by (simp add: idsBelowCounter_def)
  from remove_ids [OF this, of i] r
  have d: "distinct (treeIds ns)" and sub: "set (treeIds ns) \<subseteq> set (treeIds (tree st))"
    by simp_all
  have "\<forall>j\<in>set (treeIds ns). j < idCounter st"
    using sub assms unfolding idsBelowCounter_def by blast
  with d show ?thesis unfolding st' idsBelowCounter_def by simp
qed

lemma inv_applyEdit:
  assumes "idsBelowCounter st"
  shows "idsBelowCounter (applyEdit e st) \<and> idCounter st \<le> idCounter (applyEdit e st)"
  using assms
proof (cases e)
  case (Add a parentId)
  with assms show ?thesis by (simp add: inv_add addCall_counter)
next
  case (Remove i)
  moreover have "idCounter (snd (remove i st)) = idCounter st"
    by (cases "removeNodeFromList (tree st) i") (simp add: remove_def)
  ultimately show ?thesis using assms by (simp add: inv_remove)
next
  case Clear
  with assms show ?thesis by (simp add: clear_def idsBelowCounter_def)
qed

lemma inv_edits:
  "idsBelowCounter st \<Longrightarrow>
   idsBelowCounter (fold applyEdit es st) \<and> idCounter st \<le> idCounter (fold applyEdit es st)"
proof (induction es arbitrary: st)
  case Nil
  then show ?case by simp
next
  case (Cons e es)
  from inv_applyEdit [OF Cons.prems, of e] Cons.IH [of "applyEdit e st"]
  show ?case by auto
qed

text \<open>
  Claim C4 (id uniqueness). Take an instance as its constructor leaves it, apply any
  sequence of \<^verbatim>\<open>add*\<close>, \<^verbatim>\<open>remove\<close> and \<^verbatim>\<open>clear\<close> calls, and then any further such
  sequence. At the end the ids of the tree are pairwise distinct, and every id that
  was in the tree after the first sequence, whether its node has since been removed
  or not, is smaller than, hence different from, the id that any later successful
  \<^verbatim>\<open>add*\<close> call assigns.
\<close>

theorem id_uniqueness:
  assumes "construct q = Inr st0"
    and "st1 = fold applyEdit es1 st0"
    and "st2 = fold applyEdit es2 st1"
  shows "distinct (treeIds (tree st2)) \<and>
         (\<forall>i\<in>set (treeIds (tree st1)). \<forall>a parentId j st3.
            addCall a parentId st2 = (Inr j, st3) \<longrightarrow> i < j)"
proof (intro conjI ballI allI impI)
  have 0: "idsBelowCounter st0" using assms(1) by (rule inv_construct)
  have 1: "idsBelowCounter st1" unfolding assms(2) using inv_edits [OF 0] by simp
  have 2: "idsBelowCounter st2" "idCounter st1 \<le> idCounter st2"
    unfolding assms(3) using inv_edits [OF 1] by simp_all
  show "distinct (treeIds (tree st2))" using 2(1) by (simp add: idsBelowCounter_def)
  fix i a parentId j st3
  assume i: "i \<in> set (treeIds (tree st1))" and a: "addCall a parentId st2 = (Inr j, st3)"
  have "i < idCounter st1" using 1 i by (simp add: idsBelowCounter_def)
  moreover have "j = idCounter st2" using a by (rule addCall_result)
  ultimately show "i < j" using 2(2) by simp
qed

theorem id_uniqueness_witness:
  "construct (Some (JObj [(''a'', JObj [(''$eq'', JNum 1)])]))
     = Inr \<lparr>tree = [Condition 0 [''a''] OpEq (JNum 1)], idCounter = 1\<rparr>
   \<and> fold applyEdit [Add (AddLogical LAnd) None, Add (AddCondition [''b''] OpLt (JNum 2)) (Some 1)]
         \<lparr>tree = [Condition 0 [''a''] OpEq (JNum 1)], idCounter = 1\<rparr>
     = \<lparr>tree = [Condition 0 [''a''] OpEq (JNum 1),
                 Logical 1 LAnd [Condition 2 [''b''] OpLt (JNum 2)]], idCounter = 3\<rparr>
   \<and> fold applyEdit [Remove 1, Clear]
         \<lparr>tree = [Condition 0 [''a''] OpEq (JNum 1),
                 Logical 1 LAnd [Condition 2 [''b''] OpLt (JNum 2)]], idCounter = 3\<rparr>
     = \<lparr>tree = [], idCounter = 3\<rparr>
   \<and> 2 \<in> set (treeIds [Condition 0 [''a''] OpEq (JNum 1),
                 Logical 1 LAnd [Condition 2 [''b''] OpLt (JNum 2)]])
   \<and> addCall (AddLogical LOr) None \<lparr>tree = [], idCounter = 3\<rparr>
     = (Inr 3, \<lparr>tree = [Logical 3 LOr []], idCounter = 4\<rparr>)
   \<and> (2::nat) < 3"
  using id_uniqueness [of "Some (JObj [(''a'', JObj [(''$eq'', JNum 1)])])"
      "\<lparr>tree = [Condition 0 [''a''] OpEq (JNum 1)], idCounter = 1\<rparr>"
      "\<lparr>tree = [Condition 0 [''a''] OpEq (JNum 1),
                 Logical 1 LAnd [Condition 2 [''b''] OpLt (JNum 2)]], idCounter = 3\<rparr>"
      "[Add (AddLogical LAnd) None, Add (AddCondition [''b''] OpLt (JNum 2)) (Some 1)]"
      "\<lparr>tree = [], idCounter = 3\<rparr>"
      "[Remove 1, Clear]"]
  by (simp add: construct_def serialize_def key_defs addLogicalNode_def addConditionNode_def
        generateId_def addNode_def remove_def clear_def)

section \<open>Merging\<close>

lemma update_fresh: "k \<notin> fst ` set T \<Longrightarrow> AList.update k v T = T @ [(k, v)]"
  by (induction T) auto

lemma update_last: "k \<notin> fst ` set T \<Longrightarrow> AList.update k v (T @ [(k, u)]) = T @ [(k, v)]"
  by (induction T) auto

lemma map_of_fresh: "k \<notin> fst ` set T \<Longrightarrow> map_of T k = None"
  by (simp add: map_of_eq_None_iff)

lemma map_of_last: "k \<notin> fst ` set T \<Longrightarrow> map_of (T @ [(k, u)]) k = Some u"
  by (induction T) auto

lemma mergeInto_append:
  "mergeInto t (xs @ ys) = (case mergeInto t xs of None \<Rightarrow> None | Some r \<Rightarrow> mergeInto r ys)"
  by (induction xs arbitrary: t) (auto split: option.splits)

lemma merge_new_key:
  "k \<notin> fst ` set T \<Longrightarrow> deepMerge (JObj T) (JObj [(k, v)]) = Some (JObj (T @ [(k, v)]))"
  by (simp add: map_of_fresh update_fresh)

lemma mergesTo_single: "mergesTo [JObj [(k, v)]] [(k, v)]"
  by (auto simp: mergesTo_def map_of_fresh update_fresh)

lemma mergesTo_nil: "mergesTo [] []"
  by (simp add: mergesTo_def)

lemma mergesTo_append:
  assumes "mergesTo A ka" "mergesTo B kb" "fst ` set ka \<inter> fst ` set kb = {}"
  shows "mergesTo (A @ B) (ka @ kb)"
  unfolding mergesTo_def
proof (intro allI impI)
  fix T :: "(string \<times> jsval) list"
  assume d: "fst ` set T \<inter> fst ` set (ka @ kb) = {}"
  then have "fst ` set T \<inter> fst ` set ka = {}" by auto
  then have "mergeInto (JObj T) A = Some (JObj (T @ ka))"
    using assms(1) unfolding mergesTo_def by blast
  moreover have "fst ` set (T @ ka) \<inter> fst ` set kb = {}" using d assms(3) by auto
  then have "mergeInto (JObj (T @ ka)) B = Some (JObj ((T @ ka) @ kb))"
    using assms(2) unfolding mergesTo_def by blast
  ultimately show "mergeInto (JObj T) (A @ B) = Some (JObj (T @ ka @ kb))"
    by (simp add: mergeInto_append)
qed

lemma mergesTo_entries:
  "distinct (map fst kvs) \<Longrightarrow> mergesTo (map (\<lambda>kv. JObj [kv]) kvs) kvs"
proof (induction kvs)
  case Nil
  then show ?case by (simp add: mergesTo_nil)
next
  case (Cons kv kvs)
  obtain k v where kv: "kv = (k, v)" by (cases kv)
  have "mergesTo ([JObj [(k, v)]] @ map (\<lambda>kv. JObj [kv]) kvs) ([(k, v)] @ kvs)"
    using Cons by (intro mergesTo_append mergesTo_single) (auto simp: kv)
  then show ?case by (simp add: kv)
qed

lemma merge_under_key:
  assumes "k \<notin> fst ` set T" "\<forall>W\<in>set Ws. \<exists>w. W = JObj w" "mergeInto (JObj A) Ws = Some Z"
  shows "mergeInto (JObj (T @ [(k, JObj A)])) (map (\<lambda>W. JObj [(k, W)]) Ws)
           = Some (JObj (T @ [(k, Z)]))"
  using assms(2,3)
proof (induction Ws arbitrary: A)
  case Nil
  then show ?case by simp
next
  case (Cons W Ws)
  obtain w where W: "W = JObj w" using Cons.prems(1) by auto
  obtain A' where A': "mergeProps A w = Some A'" and r: "mergeInto (JObj A') Ws = Some Z"
    using Cons.prems(2) by (auto simp: W split: option.splits)
  have "deepMerge (JObj (T @ [(k, JObj A)])) (JObj [(k, W)]) = Some (JObj (T @ [(k, JObj A')]))"
    using assms(1) A' by (simp add: map_of_last update_last W del: map_of_append)
  moreover have "mergeInto (JObj (T @ [(k, JObj A')])) (map (\<lambda>W. JObj [(k, W)]) Ws)
       = Some (JObj (T @ [(k, Z)]))"
    using Cons.prems(1) r by (intro Cons.IH) auto
  ultimately show ?case by simp
qed

lemma mergesTo_under_key:
  assumes "Ws \<noteq> []" "\<forall>W\<in>set Ws. singleKey W" "mergesTo Ws kvs"
  shows "mergesTo (map (\<lambda>W. JObj [(k, W)]) Ws) [(k, JObj kvs)]"
  unfolding mergesTo_def
proof (intro allI impI)
  fix T :: "(string \<times> jsval) list"
  assume "fst ` set T \<inter> fst ` set [(k, JObj kvs)] = {}"
  then have k: "k \<notin> fst ` set T" by auto
  obtain W rest where Ws: "Ws = W # rest" using assms(1) by (cases Ws) auto
  obtain x y where W: "W = JObj [(x, y)]" using assms(2) Ws by (auto simp: singleKey_def)
  have "mergeInto (JObj []) Ws = Some (JObj kvs)" using assms(3) by (simp add: mergesTo_def)
  then have r: "mergeInto (JObj [(x, y)]) rest = Some (JObj kvs)" by (simp add: Ws W)
  have "\<forall>W\<in>set rest. \<exists>w. W = JObj w" using assms(2) Ws by (auto simp: singleKey_def)
  from merge_under_key [OF k this r]
  show "mergeInto (JObj T) (map (\<lambda>W. JObj [(k, W)]) Ws) = Some (JObj (T @ [(k, JObj kvs)]))"
    using k by (simp add: Ws W map_of_fresh update_fresh)
qed

lemma deserializeEach_append:
  "deserializeEach (xs @ ys) =
     (case deserializeEach xs of None \<Rightarrow> None
      | Some a \<Rightarrow> (case deserializeEach ys of None \<Rightarrow> None | Some b \<Rightarrow> Some (a @ b)))"
  by (induction xs) (auto split: option.splits)

lemma build_snoc: "buildNestedObject (p @ [k]) W = buildNestedObject p (JObj [(k, W)])"
  by (induction p) auto

lemma build_nonempty: "p \<noteq> [] \<Longrightarrow> isNotEmpty (buildNestedObject p W)"
  by (cases p) auto

lemma logical_key_inverse: "logical_of_key k = Some lop \<Longrightarrow> logical_key lop = k"
  by (auto simp: logical_of_key_def split: if_splits)

lemma embedded_key_inverse: "embedded_of_key k = Some eop \<Longrightarrow> embedded_key eop = k"
  by (auto simp: embedded_of_key_def split: if_splits)

lemma comparison_key_inverse: "comparison_of_key k = Some cop \<Longrightarrow> comparison_key cop = k"
  by (auto simp: comparison_of_key_def split: if_splits)

lemma map_of_update_other: "k \<noteq> k' \<Longrightarrow> map_of (AList.update k' v t) k = map_of t k"
  by (simp add: update_conv)

lemma mergeProps_other_key:
  "k \<notin> fst ` set src \<Longrightarrow> mergeProps tgt src = Some r \<Longrightarrow> map_of r k = map_of tgt k"
proof (induction src arbitrary: tgt)
  case Nil
  then show ?case by simp
next
  case (Cons kv src)
  obtain k' sv where kv: "kv = (k', sv)" by (cases kv)
  from Cons.prems(2) obtain nv where nv: "mergeProps (AList.update k' nv tgt) src = Some r"
    by (auto simp: kv split: option.splits)
  have "k \<noteq> k'" "k \<notin> fst ` set src" using Cons.prems(1) kv by auto
  with Cons.IH [OF _ nv] show ?case by (simp add: map_of_update_other)
qed

lemma mergeProps_rule:
  assumes "distinct (map fst src)" "(k, sv) \<in> set src" "mergeProps tgt src = Some r"
  shows "map_of r k =
           (case map_of tgt k of
              Some tv \<Rightarrow>
                if truthy tv \<and> typeof_object tv \<and> typeof_object sv
                then deepMerge tv sv else Some sv
            | None \<Rightarrow> Some sv)"
  using assms
proof (induction src arbitrary: tgt)
  case Nil
  then show ?case by simp
next
  case (Cons kv src)
  obtain k' sv' where kv: "kv = (k', sv')" by (cases kv)
  from Cons.prems(3) obtain nv where
    nv: "(case map_of tgt k' of
           Some tv \<Rightarrow>
             if truthy tv \<and> typeof_object tv \<and> typeof_object sv'
             then deepMerge tv sv' else Some sv'
         | None \<Rightarrow> Some sv') = Some nv"
    and r: "mergeProps (AList.update k' nv tgt) src = Some r"
    by (auto simp: kv split: option.splits)
  show ?case
  proof (cases "k = k'")
    case True
    then have "k \<notin> fst ` set src" and sv: "sv' = sv"
      using Cons.prems(1,2) kv by (auto simp: image_iff)
    then have "map_of r k = Some nv"
      using mergeProps_other_key [OF _ r, of k] True by (simp add: update_conv)
    then show ?thesis using nv unfolding sv True by simp
  next
    case False
    then have "(k, sv) \<in> set src" "distinct (map fst src)" using Cons.prems(1,2) kv by auto
    from Cons.IH [OF this(2) this(1) r] False show ?thesis by (simp add: map_of_update_other)
  qed
qed

text \<open>
  Claim C9 (deep merge rule). The rule holds as stated except for an incoming
  \<^verbatim>\<open>null\<close>: the test \<^verbatim>\<open>typeof source[key] === 'object'\<close> accepts it, so with an
  object as the existing value the code merges recursively, which enumerates no key of
  \<^verbatim>\<open>null\<close> and keeps the existing value, where the rule says that the incoming value
  overwrites. Merging \<^verbatim>\<open>{ "a": null }\<close> into \<^verbatim>\<open>{ "a": { "x": 1 } }\<close> returns
  \<^verbatim>\<open>{ "a": { "x": 1 } }\<close>; and deserializing the tree of the two condition nodes
  \<^verbatim>\<open>(["a","$eq"], $gt, 1)\<close> and \<^verbatim>\<open>(["a"], $eq, null)\<close> returns
  \<^verbatim>\<open>{ "a": { "$eq": { "$gt": 1 } } }\<close>, without the \<^verbatim>\<open>null\<close> of the second node.
\<close>

theorem deep_merge_null_keeps_target:
  "deepMerge (JObj [(''a'', JObj [(''x'', JNum 1)])]) (JObj [(''a'', JNull)])
     = Some (JObj [(''a'', JObj [(''x'', JNum 1)])])
   \<and> deserialize \<lparr>tree = [Condition 0 [''a'', ''$eq''] OpGt (JNum 1),
                            Condition 1 [''a''] OpEq JNull], idCounter = 2\<rparr>
     = Some (JObj [(''a'', JObj [(''$eq'', JObj [(''$gt'', JNum 1)])])])"
  by (simp add: deserialize_def mergeObjects_def)

section \<open>The round trip\<close>

lemma serializeKeys_Cons:
  "serializeKeys (kv # rest) p c =
     (case serializeKeys [kv] p c of
        (Inl e, c2) \<Rightarrow> (Inl e, c2)
      | (Inr nodes, c2) \<Rightarrow>
          (case serializeKeys rest p c2 of
             (Inl e, c3) \<Rightarrow> (Inl e, c3)
           | (Inr others, c3) \<Rightarrow> (Inr (nodes @ others), c3)))"
  by (cases kv) (simp split: prod.splits sum.splits)

lemma yields_keys_Cons:
  assumes "yields (serializeKeys [kv] p c) d1" "\<And>c'. yields (serializeKeys rest p c') d2"
  shows "yields (serializeKeys (kv # rest) p c) (d1 @ d2)"
proof -
  obtain n1 c2 where 1: "serializeKeys [kv] p c = (Inr n1, c2)" "deserializeEach n1 = Some d1"
    using assms(1) by (cases "serializeKeys [kv] p c") (auto simp: yields_def)
  obtain n2 c3 where 2: "serializeKeys rest p c2 = (Inr n2, c3)" "deserializeEach n2 = Some d2"
    using assms(2) [of c2] by (cases "serializeKeys rest p c2") (auto simp: yields_def)
  show ?thesis
    unfolding serializeKeys_Cons [of kv rest] using 1 2
    by (simp add: yields_def deserializeEach_append)
qed

lemma yields_items_Cons:
  assumes "yields (serializeObject item p c) d1" "\<And>c'. yields (serializeItems rest p c') d2"
  shows "yields (serializeItems (item # rest) p c) (d1 @ d2)"
proof -
  obtain n1 c2 where 1: "serializeObject item p c = (Inr n1, c2)" "deserializeEach n1 = Some d1"
    using assms(1) by (cases "serializeObject item p c") (auto simp: yields_def)
  obtain n2 c3 where 2: "serializeItems rest p c2 = (Inr n2, c3)" "deserializeEach n2 = Some d2"
    using assms(2) [of c2] by (cases "serializeItems rest p c2") (auto simp: yields_def)
  show ?thesis using 1 2 by (simp add: yields_def deserializeEach_append)
qed

lemma yields_not_entry:
  assumes "logical_of_key k = Some LNot" "yields (serializeObject v p c) ds"
    "mergeObjects ds = Some v'" "isNotEmpty v'"
  shows "yields (serializeKeys [(k, v)] p c) [JObj [(k, v')]]"
proof -
  obtain ns c1 where 1: "serializeObject v p c = (Inr ns, c1)" "deserializeEach ns = Some ds"
    using assms(2) by (cases "serializeObject v p c") (auto simp: yields_def)
  have k: "k = ''$not''" using assms(1) by (auto simp: logical_of_key_def split: if_splits)
  show ?thesis using assms(1,3,4) 1 by (simp add: yields_def k)
qed

lemma yields_and_or_entry:
  assumes "logical_of_key k = Some lop" "lop \<noteq> LNot" "yields (serializeItems items p c) ds"
    "ds \<noteq> []"
  shows "yields (serializeKeys [(k, JArr items)] p c) [JObj [(k, JArr ds)]]"
proof -
  obtain ns c1 where 1: "serializeItems items p c = (Inr ns, c1)" "deserializeEach ns = Some ds"
    using assms(3) by (cases "serializeItems items p c") (auto simp: yields_def)
  show ?thesis using assms(1,2,4) 1 by (simp add: yields_def logical_key_inverse)
qed

lemma yields_operator_field:
  assumes "logical_of_key k = None" "yieldsOps (serializeOps ops k p c) True ds"
  shows "yields (serializeKeys [(k, JObj ops)] p c) ds"
proof -
  obtain ns c1 where 1: "serializeOps ops k p c = (Inr (ns, True), c1)" "deserializeEach ns = Some ds"
    using assms(2) by (cases "serializeOps ops k p c") (auto simp: yieldsOps_def)
  show ?thesis using assms(1) 1 by (simp add: yields_def)
qed

lemma yields_nested_field:
  assumes "logical_of_key k = None" "serializeOps kvs k p c = (Inr ([], False), c)"
    "yields (serializeKeys kvs (p @ [k]) c) ds"
  shows "yields (serializeKeys [(k, JObj kvs)] p c) ds"
proof -
  obtain ns c1 where 1: "serializeKeys kvs (p @ [k]) c = (Inr ns, c1)" "deserializeEach ns = Some ds"
    using assms(3) by (cases "serializeKeys kvs (p @ [k]) c") (auto simp: yields_def)
  show ?thesis using assms(1,2) 1 by (simp add: yields_def)
qed

lemma serializeOps_field_names:
  "fieldEntries strict kvs \<Longrightarrow> serializeOps kvs k p c = (Inr ([], False), c)"
  by (induction kvs arbitrary: c) (auto simp: isFieldName_def isOperatorKey_def)

lemma condPieces_merge:
  assumes "condPieces ds v" shows "mergeObjects ds = Some v \<and> isNotEmpty v"
proof -
  obtain kvs where v: "v = JObj kvs" "kvs \<noteq> []" "mergesTo ds kvs"
    using assms by (auto simp: condPieces_def)
  then have "mergeInto (JObj []) ds = Some (JObj kvs)" by (simp add: mergesTo_def)
  with v show ?thesis by (simp add: mergeObjects_def)
qed

lemma roundTrips_items:
  assumes "\<And>x. x \<in> set items \<Longrightarrow> roundTrips x" "conditionItems True items"
  shows "yields (serializeItems items [] c) items"
  using assms
proof (induction items arbitrary: c)
  case Nil
  then show ?case by (simp add: yields_def)
next
  case (Cons item rest)
  have i: "conditionObject True item" "singleNode item" "conditionItems True rest"
    using Cons.prems(2) by simp_all
  have "roundTrips item" by (simp add: Cons.prems(1))
  then obtain ds where "\<And>c. yields (serializeObject item [] c) ds" "condPieces ds item"
    using i(1) unfolding roundTrips_def by blast
  then have 1: "yields (serializeObject item [] c) [item]"
    using i(2) by (simp add: condPieces_def)
  have 2: "\<And>c'. yields (serializeItems rest [] c') rest"
    by (rule Cons.IH) (simp_all add: Cons.prems(1) i(3))
  from yields_items_Cons [OF 1 2] show ?case by simp
qed

lemma yieldsOps_Cons:
  assumes "yieldsOps (serializeOps [kv] k p c) f1 d1"
    "\<And>c'. yieldsOps (serializeOps rest k p c') f2 d2"
  shows "yieldsOps (serializeOps (kv # rest) k p c) (f1 \<or> f2) (d1 @ d2)"
proof -
  obtain op v where kv: "kv = (op, v)" by (cases kv)
  obtain n1 c2 where 1: "serializeOps [kv] k p c = (Inr (n1, f1), c2)" "deserializeEach n1 = Some d1"
    using assms(1) by (cases "serializeOps [kv] k p c") (auto simp: yieldsOps_def)
  obtain n2 c3 where 2: "serializeOps rest k p c2 = (Inr (n2, f2), c3)" "deserializeEach n2 = Some d2"
    using assms(2) [of c2] by (cases "serializeOps rest k p c2") (auto simp: yieldsOps_def)
  show ?thesis using 1 2 unfolding kv
    by (auto simp: yieldsOps_def deserializeEach_append split: option.splits prod.splits sum.splits)
qed

lemma yieldsOps_embedded:
  assumes "embedded_of_key op = Some eop" "yields (serializeObject v [] c) ds" "condPieces ds v"
  shows "yieldsOps (serializeOps [(op, v)] k p c) True [buildNestedObject (p @ [k]) (JObj [(op, v)])]"
proof -
  obtain ns c1 where 1: "serializeObject v [] c = (Inr ns, c1)" "deserializeEach ns = Some ds"
    using assms(2) by (cases "serializeObject v [] c") (auto simp: yields_def)
  have 2: "mergeObjects ds = Some v" "isNotEmpty v" using condPieces_merge [OF assms(3)] by simp_all
  have "isNotEmpty (buildNestedObject (p @ [k]) (JObj [(op, v)]))" by (simp add: build_nonempty)
  then show ?thesis using assms(1) 1 2
    by (simp add: yieldsOps_def embedded_key_inverse)
qed

lemma yieldsOps_comparison:
  assumes "embedded_of_key op = None" "comparison_of_key op = Some cop"
  shows "yieldsOps (serializeOps [(op, v)] k p c) True [buildNestedObject (p @ [k]) (JObj [(op, v)])]"
proof -
  have "isNotEmpty (buildNestedObject (p @ [k]) (JObj [(op, v)]))" by (simp add: build_nonempty)
  then show ?thesis using assms by (simp add: yieldsOps_def comparison_key_inverse)
qed

lemma roundTrips_ops:
  assumes "\<And>x. x \<in> snd ` set ops \<Longrightarrow> roundTrips x" "operatorEntries True ops"
  shows "yieldsOps (serializeOps ops k p c) (ops \<noteq> [])
           (map (\<lambda>kv. buildNestedObject (p @ [k]) (JObj [kv])) ops)"
  using assms
proof (induction ops arbitrary: c)
  case Nil
  then show ?case by (simp add: yieldsOps_def)
next
  case (Cons kv rest)
  obtain op v where kv: "kv = (op, v)" by (cases kv)
  have rt: "roundTrips v" by (simp add: Cons.prems(1) kv)
  have 1: "yieldsOps (serializeOps [kv] k p c) True [buildNestedObject (p @ [k]) (JObj [kv])]"
  proof (cases "embedded_of_key op")
    case None
    then obtain cop where "comparison_of_key op = Some cop" using Cons.prems(2) kv by auto
    with None show ?thesis unfolding kv by (rule yieldsOps_comparison)
  next
    case (Some eop)
    then have "conditionObject True v" using Cons.prems(2) kv by simp
    then obtain ds where "\<And>c. yields (serializeObject v [] c) ds" "condPieces ds v"
      using rt unfolding roundTrips_def by blast
    with Some show ?thesis unfolding kv by (intro yieldsOps_embedded)
  qed
  have 2: "\<And>c'. yieldsOps (serializeOps rest k p c') (rest \<noteq> [])
           (map (\<lambda>kv. buildNestedObject (p @ [k]) (JObj [kv])) rest)"
    using Cons.prems(2) kv by (intro Cons.IH) (simp_all add: Cons.prems(1))
  from yieldsOps_Cons [OF 1 2] show ?case by simp
qed

lemma roundTrips_fields:
  assumes "\<And>x. x \<in> snd ` set kvs \<Longrightarrow> roundTrips x" "fieldEntries True kvs"
    "distinct (map fst kvs)"
  shows "\<exists>Ws. (\<forall>p c. yields (serializeKeys kvs p c) (map (buildNestedObject p) Ws))
           \<and> (\<forall>W\<in>set Ws. singleKey W) \<and> mergesTo Ws kvs \<and> (Ws = [] \<longleftrightarrow> kvs = [])
           \<and> (singleField (JObj kvs) \<longrightarrow> Ws = [JObj kvs])"
  using assms
proof (induction kvs)
  case Nil
  have "\<forall>p c. yields (serializeKeys [] p c) (map (buildNestedObject p) [])"
    by (simp add: yields_def)
  then show ?case using mergesTo_nil by fastforce
next
  case (Cons kv rest)
  obtain k v where kv: "kv = (k, v)" by (cases kv)
  have g: "isFieldName k" "fieldValue True v" "fieldEntries True rest"
    using Cons.prems(2) kv by simp_all
  have d: "k \<notin> fst ` set rest" "distinct (map fst rest)" using Cons.prems(3) kv by auto
  have k: "logical_of_key k = None" "\<not> isOperatorKey k"
    using g(1) by (simp_all add: isFieldName_def isOperatorKey_def)
  have "roundTrips v" by (simp add: Cons.prems(1) kv)
  then obtain Ws where Ws:
    "\<And>p c. yields (serializeKeys [(k, v)] p c) (map (buildNestedObject (p @ [k])) Ws)"
    "fieldPieces Ws v"
    using g(2) k(1) unfolding roundTrips_def by blast
  obtain inner where v: "v = JObj inner" "Ws \<noteq> []" "\<forall>W\<in>set Ws. singleKey W" "mergesTo Ws inner"
    using Ws(2) by (auto simp: fieldPieces_def)
  let ?A = "map (\<lambda>W. JObj [(k, W)]) Ws"
  have eq: "map (buildNestedObject (p @ [k])) Ws = map (buildNestedObject p) ?A" for p
    by (simp add: build_snoc comp_def)
  have 1: "yields (serializeKeys [kv] p c) (map (buildNestedObject p) ?A)" for p c
    using Ws(1) [of p c] unfolding kv eq .
  have A: "mergesTo ?A [(k, v)]" unfolding v(1) using v(2,3,4) by (rule mergesTo_under_key)
  have "\<exists>Bs. (\<forall>p c. yields (serializeKeys rest p c) (map (buildNestedObject p) Bs))
           \<and> (\<forall>W\<in>set Bs. singleKey W) \<and> mergesTo Bs rest \<and> (Bs = [] \<longleftrightarrow> rest = [])"
    using Cons.IH [OF _ g(3) d(2)] Cons.prems(1) by auto
  then obtain Bs where Bs:
    "\<And>p c. yields (serializeKeys rest p c) (map (buildNestedObject p) Bs)"
    "\<forall>W\<in>set Bs. singleKey W" "mergesTo Bs rest" "Bs = [] \<longleftrightarrow> rest = []"
    by blast
  have y: "yields (serializeKeys (kv # rest) p c) (map (buildNestedObject p) (?A @ Bs))" for p c
    using yields_keys_Cons [OF 1 Bs(1), of p c] by simp
  have m: "mergesTo (?A @ Bs) (kv # rest)"
    using mergesTo_append [OF A Bs(3)] d(1) by (simp add: kv)
  have s: "\<forall>W\<in>set (?A @ Bs). singleKey W" using Bs(2) by (auto simp: singleKey_def)
  have n: "?A @ Bs = [] \<longleftrightarrow> kv # rest = []" using v(2) by simp
  have one: "?A @ Bs = [JObj (kv # rest)]" if "singleField (JObj (kv # rest))"
  proof -
    from that have r: "rest = []" unfolding kv by (cases rest) auto
    with that k(2) have "singleField v" by (simp add: kv)
    then have "Ws = [v]" using Ws(2) by (simp add: fieldPieces_def)
    moreover have "Bs = []" using Bs(4) r by simp
    ultimately show ?thesis by (simp add: r kv)
  qed
  show ?case using y m s n one by blast
qed

lemma roundTrips_condition:
  assumes "roundTrips v" "conditionObject True v"
  obtains ds where "\<And>c. yields (serializeObject v [] c) ds" "condPieces ds v"
  using assms unfolding roundTrips_def by blast

lemma roundTrips_field:
  assumes "roundTrips v" "fieldValue True v"
  obtains Ws where
    "\<And>k p c. logical_of_key k = None \<Longrightarrow>
       yields (serializeKeys [(k, v)] p c) (map (buildNestedObject (p @ [k])) Ws)"
    "fieldPieces Ws v"
  using assms unfolding roundTrips_def by blast

lemma roundTrips_array:
  assumes "roundTrips (JArr items)" "conditionItems True items"
  shows "yields (serializeItems items [] c) items"
  using assms unfolding roundTrips_def by blast

lemma roundTrips_entry:
  assumes "roundTrips v" "conditionEntries True [(k, v)]"
  shows "\<exists>A. (\<forall>c. yields (serializeKeys [(k, v)] [] c) A) \<and> mergesTo A [(k, v)] \<and> A \<noteq> []
           \<and> (singleNode (JObj [(k, v)]) \<longrightarrow> A = [JObj [(k, v)]])"
proof (cases "logical_of_key k")
  case None
  then have g: "fieldValue True v" using assms(2) by simp
  from roundTrips_field [OF assms(1) g] obtain Ws where Ws:
    "\<And>k p c. logical_of_key k = None \<Longrightarrow>
       yields (serializeKeys [(k, v)] p c) (map (buildNestedObject (p @ [k])) Ws)"
    "fieldPieces Ws v"
    by blast
  obtain inner where v: "v = JObj inner" "Ws \<noteq> []" "\<forall>W\<in>set Ws. singleKey W" "mergesTo Ws inner"
    using Ws(2) unfolding fieldPieces_def by blast
  let ?A = "map (\<lambda>W. JObj [(k, W)]) Ws"
  have eq: "map (buildNestedObject ([] @ [k])) Ws = ?A" by simp
  have 1: "\<forall>c. yields (serializeKeys [(k, v)] [] c) ?A"
    using Ws(1) [OF None, of "[]"] unfolding eq by simp
  have 2: "mergesTo ?A [(k, v)]" unfolding v(1) using v(2,3,4) by (rule mergesTo_under_key)
  have 3: "singleNode (JObj [(k, v)]) \<longrightarrow> ?A = [JObj [(k, v)]]"
  proof
    assume "singleNode (JObj [(k, v)])"
    with None have "singleField v" by simp
    then have "Ws = [v]" using Ws(2) by (simp add: fieldPieces_def)
    then show "?A = [JObj [(k, v)]]" by simp
  qed
  have 4: "?A \<noteq> []" using v(2) by simp
  show ?thesis by (rule exI [of _ ?A]) (intro conjI 1 2 3 4)
next
  case (Some lop)
  have 1: "\<forall>c. yields (serializeKeys [(k, v)] [] c) [JObj [(k, v)]]"
  proof (cases "lop = LNot")
    case True
    then have "conditionObject True v" using assms(2) Some by simp
    from roundTrips_condition [OF assms(1) this] obtain ds where
      ds: "\<And>c. yields (serializeObject v [] c) ds" "condPieces ds v"
      by blast
    have l: "logical_of_key k = Some LNot" using Some True by simp
    from condPieces_merge [OF ds(2)] have m: "mergeObjects ds = Some v" "isNotEmpty v"
      by simp_all
    show ?thesis using yields_not_entry [OF l ds(1) m] by simp
  next
    case False
    have "\<exists>items. v = JArr items \<and> items \<noteq> [] \<and> conditionItems True items"
      using assms(2) Some False by (cases v) simp_all
    then obtain items where i: "v = JArr items" "items \<noteq> []" "conditionItems True items"
      by blast
    have "\<And>c. yields (serializeItems items [] c) items"
      using assms(1) i(3) unfolding i(1) by (rule roundTrips_array)
    from yields_and_or_entry [OF Some False this i(2)] show ?thesis unfolding i(1) by simp
  qed
  have 2: "[JObj [(k, v)]] \<noteq> []" by simp
  have 3: "singleNode (JObj [(k, v)]) \<longrightarrow> [JObj [(k, v)]] = [JObj [(k, v)]]" by simp
  show ?thesis
    by (rule exI [of _ "[JObj [(k, v)]]"]) (intro conjI 1 2 3 mergesTo_single)
qed

lemma roundTrips_entries:
  assumes "\<And>x. x \<in> snd ` set kvs \<Longrightarrow> roundTrips x" "conditionEntries True kvs"
    "distinct (map fst kvs)"
  shows "\<exists>ds. (\<forall>c. yields (serializeKeys kvs [] c) ds) \<and> mergesTo ds kvs
           \<and> (ds = [] \<longleftrightarrow> kvs = []) \<and> (singleNode (JObj kvs) \<longrightarrow> ds = [JObj kvs])"
  using assms
proof (induction kvs)
  case Nil
  have "\<forall>c. yields (serializeKeys [] [] c) []" by (simp add: yields_def)
  then show ?case using mergesTo_nil by fastforce
next
  case (Cons kv rest)
  obtain k v where kv: "kv = (k, v)" by (cases kv)
  have g: "conditionEntries True [(k, v)]" "conditionEntries True rest"
    using Cons.prems(2) kv by simp_all
  have d: "k \<notin> fst ` set rest" "distinct (map fst rest)" using Cons.prems(3) kv by auto
  have "roundTrips v" by (simp add: Cons.prems(1) kv)
  from roundTrips_entry [OF this g(1)] obtain A where A:
    "\<And>c. yields (serializeKeys [kv] [] c) A" "mergesTo A [(k, v)]" "A \<noteq> []"
    "singleNode (JObj [(k, v)]) \<longrightarrow> A = [JObj [(k, v)]]"
    unfolding kv by blast
  have "\<exists>Bs. (\<forall>c. yields (serializeKeys rest [] c) Bs) \<and> mergesTo Bs rest
           \<and> (Bs = [] \<longleftrightarrow> rest = [])"
    using Cons.IH [OF _ g(2) d(2)] Cons.prems(1) by auto
  then obtain Bs where Bs:
    "\<And>c. yields (serializeKeys rest [] c) Bs" "mergesTo Bs rest" "Bs = [] \<longleftrightarrow> rest = []"
    by blast
  have y: "yields (serializeKeys (kv # rest) [] c) (A @ Bs)" for c
    using yields_keys_Cons [OF A(1) Bs(1), of c] by simp
  have m: "mergesTo (A @ Bs) (kv # rest)"
    using mergesTo_append [OF A(2) Bs(2)] d(1) by (simp add: kv)
  have n: "A @ Bs = [] \<longleftrightarrow> kv # rest = []" using A(3) by simp
  have one: "A @ Bs = [JObj (kv # rest)]" if "singleNode (JObj (kv # rest))"
  proof -
    from that have r: "rest = []" unfolding kv by (cases rest) auto
    with that A(4) Bs(3) show ?thesis by (simp add: kv)
  qed
  show ?case using y m n one by blast
qed

lemma singleField_obj:
  assumes "singleField (JObj kvs)" obtains kv where "kvs = [kv]"
proof (cases kvs)
  case Nil
  with assms show ?thesis by simp
next
  case (Cons kv rest)
  with assms have "rest = []" by (cases kv; cases rest) simp_all
  with Cons that show ?thesis by simp
qed

lemma roundTrips_all: "roundTrips v"
proof (induction v)
  case (JArr items)
  then have "\<And>c. conditionItems True items \<Longrightarrow> yields (serializeItems items [] c) items"
    by (intro roundTrips_items) auto
  then show ?case by (simp add: roundTrips_def)
next
  case (JObj kvs)
  have el: "\<And>x. x \<in> snd ` set kvs \<Longrightarrow> roundTrips x"
    using JObj by (auto simp: snds.simps)
  have 1: "\<exists>ds. (\<forall>c. yields (serializeObject (JObj kvs) [] c) ds) \<and> condPieces ds (JObj kvs)"
    if "conditionObject True (JObj kvs)"
  proof -
    from that have g: "kvs \<noteq> []" "distinct (map fst kvs)" "conditionEntries True kvs" by simp_all
    from roundTrips_entries [OF el g(3) g(2)] g(1) show ?thesis
      by (auto simp: condPieces_def)
  qed
  have 2: "\<exists>Ws. (\<forall>k p c. logical_of_key k = None \<longrightarrow>
                  yields (serializeKeys [(k, JObj kvs)] p c) (map (buildNestedObject (p @ [k])) Ws))
              \<and> fieldPieces Ws (JObj kvs)"
    if "fieldValue True (JObj kvs)"
  proof -
    from that have g: "kvs \<noteq> []" "distinct (map fst kvs)"
      "operatorEntries True kvs \<or> fieldEntries True kvs" by simp_all
    show ?thesis
    proof (cases "operatorEntries True kvs")
      case True
      let ?Ws = "map (\<lambda>kv. JObj [kv]) kvs"
      have "yields (serializeKeys [(k, JObj kvs)] p c) (map (buildNestedObject (p @ [k])) ?Ws)"
        if "logical_of_key k = None" for k p c
      proof -
        from roundTrips_ops [OF el True, of k p c] g(1)
        have "yieldsOps (serializeOps kvs k p c) True (map (buildNestedObject (p @ [k])) ?Ws)"
          by (simp add: comp_def)
        with that show ?thesis by (rule yields_operator_field)
      qed
      moreover have "fieldPieces ?Ws (JObj kvs)"
      proof -
        have a: "?Ws \<noteq> []" using g(1) by simp
        have b: "\<forall>W\<in>set ?Ws. singleKey W" by (auto simp: singleKey_def)
        have c: "singleField (JObj kvs) \<longrightarrow> ?Ws = [JObj kvs]"
        proof
          assume "singleField (JObj kvs)"
          then obtain kv where "kvs = [kv]" by (rule singleField_obj)
          then show "?Ws = [JObj kvs]" by simp
        qed
        show ?thesis unfolding fieldPieces_def using a b c mergesTo_entries [OF g(2)] by blast
      qed
      ultimately show ?thesis by blast
    next
      case False
      with g(3) have f: "fieldEntries True kvs" by simp
      from roundTrips_fields [OF el f g(2)] obtain Ws where Ws:
        "\<And>p c. yields (serializeKeys kvs p c) (map (buildNestedObject p) Ws)"
        "\<forall>W\<in>set Ws. singleKey W" "mergesTo Ws kvs" "Ws = [] \<longleftrightarrow> kvs = []"
        "singleField (JObj kvs) \<longrightarrow> Ws = [JObj kvs]"
        by blast
      have "yields (serializeKeys [(k, JObj kvs)] p c) (map (buildNestedObject (p @ [k])) Ws)"
        if "logical_of_key k = None" for k p c
        using that serializeOps_field_names [OF f] Ws(1) by (rule yields_nested_field)
      moreover have "fieldPieces Ws (JObj kvs)"
        unfolding fieldPieces_def using Ws g(1) by simp
      ultimately show ?thesis by blast
    qed
  qed
  show ?case unfolding roundTrips_def using 1 2 by simp
qed (simp_all add: roundTrips_def)

lemma map_of_key: "k \<in> fst ` set xs \<Longrightarrow> \<exists>v. map_of xs k = Some v \<and> (k, v) \<in> set xs"
  by (induction xs) auto

lemma deepEqual_refl: "deepEqual v v"
proof (induction v)
  case (JArr xs)
  have "list_all (\<lambda>(x, y). deepEqual x y) (zip xs xs)"
    using JArr by (auto simp: list_all_iff zip_same)
  then show ?case by simp
next
  case (JObj xs)
  have "(case map_of xs k of
           Some v \<Rightarrow> (case map_of xs k of Some w \<Rightarrow> deepEqual v w | None \<Rightarrow> False)
         | None \<Rightarrow> False)" if "k \<in> fst ` set xs" for k
  proof -
    from map_of_key [OF that] obtain v where v: "map_of xs k = Some v" "(k, v) \<in> set xs"
      by blast
    then have "deepEqual v v" using JObj by (auto simp: snds.simps)
    with v show ?thesis by simp
  qed
  then show ?case by (simp add: list_all_iff)
qed simp_all

lemma round_trip_exact:
  assumes "conditionObject True q"
  shows "\<exists>nodes. fst (serialize q st) = Inr nodes \<and> deserialize (snd (serialize q st)) = Some q"
proof -
  from roundTrips_condition [OF roundTrips_all assms] obtain ds where
    ds: "\<And>c. yields (serializeObject q [] c) ds" "condPieces ds q"
    by blast
  obtain ns c1 where r: "serializeObject q [] (idCounter st) = (Inr ns, c1)"
    "deserializeEach ns = Some ds"
    using ds(1) [of "idCounter st"]
    by (cases "serializeObject q [] (idCounter st)") (auto simp: yields_def)
  from condPieces_merge [OF ds(2)] r show ?thesis
    by (simp add: serialize_def deserialize_def)
qed

text \<open>
  Claim C1 (round trip). As stated the claim does not hold: the children of an
  \<^verbatim>\<open>$and\<close>/\<^verbatim>\<open>$or\<close> node are the nodes of all array elements, flattened, and each
  child is deserialized into an array element of its own, so an element that
  serializes to several nodes comes back as several elements. The condition object
  \<^verbatim>\<open>{ "$and": [{ "a": { "$eq": 1 }, "b": { "$eq": 2 } }] }\<close> is in the grammar and
  comes back as \<^verbatim>\<open>{ "$and": [{ "a": { "$eq": 1 } }, { "b": { "$eq": 2 } }] }\<close>.
\<close>

theorem round_trip_counterexample:
  "conditionObject False
     (JObj [(''$and'', JArr [JObj [(''a'', JObj [(''$eq'', JNum 1)]),
                                   (''b'', JObj [(''$eq'', JNum 2)])]])])
   \<and> deserialize (snd (serialize
         (JObj [(''$and'', JArr [JObj [(''a'', JObj [(''$eq'', JNum 1)]),
                                       (''b'', JObj [(''$eq'', JNum 2)])]])])
         \<lparr>tree = [], idCounter = 0\<rparr>))
       = Some (JObj [(''$and'', JArr [JObj [(''a'', JObj [(''$eq'', JNum 1)])],
                                     JObj [(''b'', JObj [(''$eq'', JNum 2)])]])])
   \<and> \<not> deepEqual
         (JObj [(''$and'', JArr [JObj [(''a'', JObj [(''$eq'', JNum 1)])],
                                JObj [(''b'', JObj [(''$eq'', JNum 2)])]])])
         (JObj [(''$and'', JArr [JObj [(''a'', JObj [(''$eq'', JNum 1)]),
                                       (''b'', JObj [(''$eq'', JNum 2)])]])])"
  by (simp add: key_defs isFieldName_def isOperatorKey_def objectPrototypeNames_def
        serialize_def deserialize_def mergeObjects_def)

text \<open>
  Claim C1, amended. Take a condition object of the grammar, all of whose mappings and
  arrays are non-empty, in which
  \<^item> every element of every \<^verbatim>\<open>$and\<close>/\<^verbatim>\<open>$or\<close> array has a single key leading to a
    single operator,
  \<^item> no logical operator is a key of a field value, and
  \<^item> the body of every embedded operator is a condition object, not an array.
  Then serialization succeeds and the following deserialization returns an object that
  is deeply equal to the original up to key order. (In the model the object returned
  is the original, key order included; \<open>round_trip_exact\<close> above.)
\<close>

theorem round_trip_flat:
  assumes "conditionObject True q"
  shows "\<exists>nodes r. fst (serialize q st) = Inr nodes \<and>
           deserialize (snd (serialize q st)) = Some r \<and> deepEqual r q"
  using round_trip_exact [OF assms, of st] deepEqual_refl [of q] by blast

theorem round_trip_flat_witness:
  "conditionObject True
     (JObj [(''tags'', JObj [(''$some'',
               JObj [(''$and'', JArr [JObj [(''x'', JObj [(''$eq'', JNum 1)])]]),
                     (''y'', JObj [(''z'', JObj [(''$in'', JArr [JNum 1]), (''$lt'', JNum 9)])])])]),
            (''$not'', JObj [(''a'', JObj [(''$eq'', JNum 1)]), (''b'', JObj [(''$eq'', JNum 2)])])])
   \<and> deserialize (snd (serialize
     (JObj [(''tags'', JObj [(''$some'',
               JObj [(''$and'', JArr [JObj [(''x'', JObj [(''$eq'', JNum 1)])]]),
                     (''y'', JObj [(''z'', JObj [(''$in'', JArr [JNum 1]), (''$lt'', JNum 9)])])])]),
            (''$not'', JObj [(''a'', JObj [(''$eq'', JNum 1)]), (''b'', JObj [(''$eq'', JNum 2)])])])
      \<lparr>tree = [], idCounter = 0\<rparr>))
     = Some (JObj [(''tags'', JObj [(''$some'',
               JObj [(''$and'', JArr [JObj [(''x'', JObj [(''$eq'', JNum 1)])]]),
                     (''y'', JObj [(''z'', JObj [(''$in'', JArr [JNum 1]), (''$lt'', JNum 9)])])])]),
            (''$not'', JObj [(''a'', JObj [(''$eq'', JNum 1)]), (''b'', JObj [(''$eq'', JNum 2)])])])"
  using round_trip_flat [of "JObj [(''tags'', JObj [(''$some'',
               JObj [(''$and'', JArr [JObj [(''x'', JObj [(''$eq'', JNum 1)])]]),
                     (''y'', JObj [(''z'', JObj [(''$in'', JArr [JNum 1]), (''$lt'', JNum 9)])])])]),
            (''$not'', JObj [(''a'', JObj [(''$eq'', JNum 1)]), (''b'', JObj [(''$eq'', JNum 2)])])]"
      "\<lparr>tree = [], idCounter = 0\<rparr>"]
  by (simp add: key_defs isFieldName_def isOperatorKey_def objectPrototypeNames_def
        serialize_def deserialize_def mergeObjects_def)

text \<open>
  The other two restrictions of the amended claim are needed as well. A logical
  operator under a field becomes a logical node, which deserializes at the root and
  not under the field: \<^verbatim>\<open>{ "age": { "$not": { "$gt": 5 } } }\<close> comes back as
  \<^verbatim>\<open>null\<close>, and \<^verbatim>\<open>{ "a": { "$not": { "b": { "$eq": 1 } } } }\<close> as
  \<^verbatim>\<open>{ "$not": { "a": { "b": { "$eq": 1 } } } }\<close>. An array as the body of an embedded
  operator comes back as the merged object of its elements:
  \<^verbatim>\<open>{ "tags": { "$some": [{ "x": { "$eq": 1 } }] } }\<close> comes back as
  \<^verbatim>\<open>{ "tags": { "$some": { "x": { "$eq": 1 } } } }\<close>.
\<close>

lemma field_level_logical_lost:
  "conditionObject False (JObj [(''age'', JObj [(''$not'', JObj [(''$gt'', JNum 5)])])])
   \<and> deserialize (snd (serialize
         (JObj [(''age'', JObj [(''$not'', JObj [(''$gt'', JNum 5)])])])
         \<lparr>tree = [], idCounter = 0\<rparr>))
       = Some JNull
   \<and> \<not> deepEqual JNull (JObj [(''age'', JObj [(''$not'', JObj [(''$gt'', JNum 5)])])])"
  by (simp add: key_defs isFieldName_def isOperatorKey_def objectPrototypeNames_def
        serialize_def deserialize_def mergeObjects_def)

lemma field_level_logical_moved:
  "conditionObject False
     (JObj [(''a'', JObj [(''$not'', JObj [(''b'', JObj [(''$eq'', JNum 1)])])])])
   \<and> deserialize (snd (serialize
         (JObj [(''a'', JObj [(''$not'', JObj [(''b'', JObj [(''$eq'', JNum 1)])])])])
         \<lparr>tree = [], idCounter = 0\<rparr>))
       = Some (JObj [(''$not'', JObj [(''a'', JObj [(''b'', JObj [(''$eq'', JNum 1)])])])])
   \<and> \<not> deepEqual
         (JObj [(''$not'', JObj [(''a'', JObj [(''b'', JObj [(''$eq'', JNum 1)])])])])
         (JObj [(''a'', JObj [(''$not'', JObj [(''b'', JObj [(''$eq'', JNum 1)])])])])"
  by (simp add: key_defs isFieldName_def isOperatorKey_def objectPrototypeNames_def
        serialize_def deserialize_def mergeObjects_def)

lemma embedded_array_body_merged:
  "conditionObject False
     (JObj [(''tags'', JObj [(''$some'', JArr [JObj [(''x'', JObj [(''$eq'', JNum 1)])]])])])
   \<and> deserialize (snd (serialize
         (JObj [(''tags'', JObj [(''$some'', JArr [JObj [(''x'', JObj [(''$eq'', JNum 1)])]])])])
         \<lparr>tree = [], idCounter = 0\<rparr>))
       = Some (JObj [(''tags'', JObj [(''$some'', JObj [(''x'', JObj [(''$eq'', JNum 1)])])])])
   \<and> \<not> deepEqual
         (JObj [(''tags'', JObj [(''$some'', JObj [(''x'', JObj [(''$eq'', JNum 1)])])])])
         (JObj [(''tags'', JObj [(''$some'', JArr [JObj [(''x'', JObj [(''$eq'', JNum 1)])]])])])"
  by (simp add: key_defs isFieldName_def isOperatorKey_def objectPrototypeNames_def
        serialize_def deserialize_def mergeObjects_def)

end
